theory Spec2Isabelle
  imports Complex_Main
begin

section \<open>The platformer's collision and physics core\<close>

text \<open>
  A shallow embedding of \<^verbatim>\<open>plat.py\<close>: the tile map and its queries
  (\<^verbatim>\<open>Map.__init__\<close>, \<^verbatim>\<open>get_tile\<close>, \<^verbatim>\<open>is_tile_solid\<close>,
  \<^verbatim>\<open>is_solid\<close>, \<^verbatim>\<open>on_ground\<close>, \<^verbatim>\<open>test_box\<close>, \<^verbatim>\<open>move_box\<close>),
  the per-tick body update \<^verbatim>\<open>Game.physics\<close> and the tick scheduling of
  \<^verbatim>\<open>main\<close>. The class \<^verbatim>\<open>Map\<close> of \<^verbatim>\<open>tilemap.py\<close> repeats the same
  queries under other names (its \<^verbatim>\<open>move_box\<close> returns no collision set).

  Numbers. A Python \<^verbatim>\<open>int\<close> is an \<^typ>\<open>int\<close>. A Python \<^verbatim>\<open>float\<close> is modelled
  by the real number it denotes. Two operations are modelled with the rounding of a
  double: the division of two integers in \<^verbatim>\<open>get_tile\<close> (see \<open>get_tile_float\<close>) and
  the product \<^verbatim>\<open>(time() - start_time) * 50\<close> in \<^verbatim>\<open>main\<close>; there the exact result
  is rounded to the nearest double, and a result beyond the doubles raises
  \<^verbatim>\<open>OverflowError\<close>. In the vector operations, the box test, the resolver and the
  body update, float arithmetic is the exact operation on reals, so the rounding error of
  those operations, infinities and NaN are outside the model. The conversions
  \<^verbatim>\<open>int(f)\<close> and \<^verbatim>\<open>round(f)\<close> are exact functions of the float's value in Python
  and are modelled exactly. Every concrete evaluation of the collision functions below
  uses values with short binary expansions, on which double arithmetic is exact as well.

  Exceptions are values: a function that can raise returns \<open>error + 'a\<close>, with
  \<open>Inl\<close> the exception.
\<close>

subsection \<open>Values\<close>

datatype error = IndexError | ValueError | RuntimeError | ZeroDivisionError | OverflowError

text \<open>\<^verbatim>\<open>class Point2d\<close>, also used under the name \<^verbatim>\<open>Vector2d\<close>.\<close>

datatype Point2d = Point2d (px: real) (py: real)

type_synonym Vector2d = Point2d

definition sub :: "Point2d \<Rightarrow> Point2d \<Rightarrow> Point2d" where
  "sub a b = Point2d (px a - px b) (py a - py b)"

definition add :: "Point2d \<Rightarrow> Point2d \<Rightarrow> Point2d" where
  "add a b = Point2d (px a + px b) (py a + py b)"

definition mul :: "Point2d \<Rightarrow> real \<Rightarrow> Point2d" where
  "mul a scalar = Point2d (px a * scalar) (py a * scalar)"

definition len :: "Point2d \<Rightarrow> real" where
  "len a = sqrt (px a * px a + py a * py a)"

text \<open>\<^verbatim>\<open>int(f)\<close> on a float: truncation toward zero.\<close>

definition py_int :: "real \<Rightarrow> int" where
  "py_int r = (if 0 \<le> r then \<lfloor>r\<rfloor> else \<lceil>r\<rceil>)"

text \<open>
  \<^verbatim>\<open>round(f)\<close> on a float, with no second argument: Python 3 returns the nearest
  \<^verbatim>\<open>int\<close> and, when \<open>f\<close> is halfway between two integers, the even one.
\<close>

definition py_round :: "real \<Rightarrow> int" where
  "py_round r =
     (let f = \<lfloor>r\<rfloor>; d = r - of_int f
      in if d < 1 / 2 then f
         else if 1 / 2 < d then f + 1
         else if even f then f else f + 1)"

text \<open>\<^verbatim>\<open>xs[i]\<close> on a list: a negative index counts from the end.\<close>

definition getitem :: "'a list \<Rightarrow> int \<Rightarrow> error + 'a" where
  "getitem xs i =
     (if 0 \<le> i \<and> i < int (length xs) then Inr (xs ! nat i)
      else if i < 0 \<and> - int (length xs) \<le> i then Inr (xs ! nat (int (length xs) + i))
      else Inl IndexError)"

datatype Collision = Collision_X | Collision_Y | Collision_CORNER

datatype Input = NONE | LEFT | RIGHT | JUMP | RESTART | QUIT

definition TILE_SIZE :: Point2d where
  "TILE_SIZE = Point2d 64 64"

definition PLAYER_SIZE :: Point2d where
  "PLAYER_SIZE = Point2d 64 64"

definition AIR :: int where "AIR = 0"
definition START :: int where "START = 78"
definition FINISH :: int where "FINISH = 110"

subsection \<open>Rounding to a double\<close>

text \<open>
  \<^verbatim>\<open>n.bit_length()\<close> on a natural number, and from it the exponent \<open>e\<close> with
  \<open>2\<^sup>e \<le> r < 2\<^sup>e\<^sup>+\<^sup>1\<close> of a positive real.
\<close>

fun bit_length :: "nat \<Rightarrow> nat" where
  "bit_length n = (if n = 0 then 0 else Suc (bit_length (n div 2)))"

declare bit_length.simps [simp del]

definition ilog2 :: "real \<Rightarrow> int" where
  "ilog2 r =
     (if 1 \<le> r then int (bit_length (nat \<lfloor>r\<rfloor>)) - 1
      else - int (bit_length (nat (\<lceil>1 / r\<rceil> - 1))))"

text \<open>
  An IEEE 754 double has 53 significant bits and exponents from \<open>- 1022\<close>: around
  \<open>r\<close> the doubles are the multiples of \<open>2\<^sup>u\<close>, \<open>u = ulp_exponent r\<close> (below
  \<open>2\<^sup>-\<^sup>1\<^sup>0\<^sup>2\<^sup>2\<close> the spacing stays \<open>2\<^sup>-\<^sup>1\<^sup>0\<^sup>7\<^sup>4\<close>), and an operation returns the
  multiple nearest to its exact result, the even one of two equally near. A result that
  rounds to \<open>2\<^sup>1\<^sup>0\<^sup>2\<^sup>4\<close> or beyond is not a finite double.
\<close>

definition ulp_exponent :: "real \<Rightarrow> int" where
  "ulp_exponent r = max (ilog2 \<bar>r\<bar>) (- 1022) - 52"

definition round_double :: "real \<Rightarrow> real" where
  "round_double r =
     (if r = 0 then 0
      else let u = ulp_exponent r
           in of_int (py_round (r / 2 powi u)) * 2 powi u)"

text \<open>
  \<^verbatim>\<open>a / b\<close> on an \<^verbatim>\<open>int\<close> and a number of integer value: the correctly rounded
  quotient, \<^verbatim>\<open>ZeroDivisionError\<close> for a zero divisor, \<^verbatim>\<open>OverflowError\<close> when the
  quotient is too large for a double.
\<close>

definition int_truediv :: "int \<Rightarrow> real \<Rightarrow> error + real" where
  "int_truediv x d =
     (if d = 0 then Inl ZeroDivisionError
      else let q = round_double (of_int x / d)
           in if 2 ^ 1024 \<le> \<bar>q\<bar> then Inl OverflowError else Inr q)"



subsection \<open>The tile map\<close>

text \<open>
  \<^verbatim>\<open>class Map\<close>, without its texture. In \<^verbatim>\<open>get_tile\<close> the quotient
  \<^verbatim>\<open>x / TILE_SIZE.x\<close> of two integers is a float division. \<open>get_tile_float\<close> is
  the method as Python evaluates it on any two integers: each quotient is rounded to a
  double, and a quotient too large for a double raises \<^verbatim>\<open>OverflowError\<close> before the
  list is read. \<open>get_tile\<close> is the method with the exact quotient, and the form in
  which the point query below uses it: \<open>is_solid\<close> passes \<^verbatim>\<open>round(f)\<close> of a float
  \<open>f\<close>, an integer of at most 53 significant bits times a power of two, below
  \<open>2\<^sup>1\<^sup>0\<^sup>2\<^sup>4\<close>, and on such arguments the quotient by 64 is a double and the two
  functions agree (\<open>get_tile_float_on_doubles\<close> below).
\<close>

record Map =
  width :: int
  height :: int
  tiles :: "int list"

definition get_tile :: "Map \<Rightarrow> int \<Rightarrow> int \<Rightarrow> error + int" where
  "get_tile m x y =
     (let nx = min (max (py_int (of_int x / px TILE_SIZE)) 0) (width m - 1);
          ny = min (max (py_int (of_int y / py TILE_SIZE)) 0) (height m - 1);
          pos = ny * width m + nx
      in getitem (tiles m) pos)"

definition get_tile_float :: "Map \<Rightarrow> int \<Rightarrow> int \<Rightarrow> error + int" where
  "get_tile_float m x y =
     (case int_truediv x (px TILE_SIZE) of
        Inl e \<Rightarrow> Inl e
      | Inr qx \<Rightarrow>
          (case int_truediv y (py TILE_SIZE) of
             Inl e \<Rightarrow> Inl e
           | Inr qy \<Rightarrow>
               (let nx = min (max (py_int qx) 0) (width m - 1);
                    ny = min (max (py_int qy) 0) (height m - 1);
                    pos = ny * width m + nx
                in getitem (tiles m) pos)))"

definition is_tile_solid :: "Map \<Rightarrow> int \<Rightarrow> int \<Rightarrow> error + bool" where
  "is_tile_solid m x y =
     (case get_tile m x y of
        Inl e \<Rightarrow> Inl e
      | Inr t \<Rightarrow> Inr (t \<notin> {AIR, START, FINISH}))"

definition is_solid :: "Map \<Rightarrow> Point2d \<Rightarrow> error + bool" where
  "is_solid m point = is_tile_solid m (py_round (px point)) (py_round (py point))"

text \<open>
  Python's \<^verbatim>\<open>a or b\<close> on two calls: \<open>b\<close> is evaluated only when \<open>a\<close> returned
  \<^verbatim>\<open>False\<close>; an exception of \<open>a\<close> propagates.
\<close>

definition or_else :: "error + bool \<Rightarrow> error + bool \<Rightarrow> error + bool" where
  "or_else a b = (case a of Inl e \<Rightarrow> Inl e | Inr t \<Rightarrow> if t then Inr True else b)"

definition on_ground :: "Map \<Rightarrow> Point2d \<Rightarrow> Vector2d \<Rightarrow> error + bool" where
  "on_ground m pos size0 =
     (let size = mul size0 0.5
      in or_else (is_solid m (Point2d (px pos - px size) (py pos + py size + 1)))
                 (is_solid m (Point2d (px pos + px size) (py pos + py size + 1))))"

definition test_box :: "Map \<Rightarrow> Point2d \<Rightarrow> Vector2d \<Rightarrow> error + bool" where
  "test_box m pos size0 =
     (let size = mul size0 0.5
      in or_else (is_solid m (Point2d (px pos - px size) (py pos - py size)))
        (or_else (is_solid m (Point2d (px pos + px size) (py pos - py size)))
        (or_else (is_solid m (Point2d (px pos - px size) (py pos + py size)))
                 (is_solid m (Point2d (px pos + px size) (py pos + py size))))))"

subsection \<open>Loading a map\<close>

text \<open>
  \<^verbatim>\<open>Map.__init__\<close> reads a text file. The model starts from the decoded text of
  the file (ASCII, after Python's newline translation): \<open>readlines\<close> cuts it after
  every newline, keeping the newline in the line, and \<open>split_sp\<close> is
  \<^verbatim>\<open>line.split(' ')\<close>, which cuts at every single space and keeps empty pieces.
\<close>

fun readlines_from :: "string \<Rightarrow> string \<Rightarrow> string list" where
  "readlines_from cur [] = (if cur = [] then [] else [cur])"
| "readlines_from cur (c # cs) =
     (if c = CHR 0x0A then (cur @ [c]) # readlines_from [] cs
      else readlines_from (cur @ [c]) cs)"

definition readlines :: "string \<Rightarrow> string list" where
  "readlines text = readlines_from [] text"

fun split_from :: "string \<Rightarrow> string \<Rightarrow> string list" where
  "split_from cur [] = [cur]"
| "split_from cur (c # cs) =
     (if c = CHR '' '' then cur # split_from [] cs
      else split_from (cur @ [c]) cs)"

definition split_sp :: "string \<Rightarrow> string list" where
  "split_sp line = split_from [] line"

text \<open>
  \<^verbatim>\<open>int(word)\<close> on a string, for ASCII text: white space around the literal is
  dropped (space, tab, newline, vertical tab, form feed and carriage return, the
  characters of C's \<^verbatim>\<open>isspace\<close>), then an optional sign and decimal digits follow,
  where one underscore may stand between two digits. Anything else raises
  \<^verbatim>\<open>ValueError\<close> (\<open>None\<close> here). The limit that recent Python versions put on the
  number of digits is not modelled.
\<close>

definition is_space :: "char \<Rightarrow> bool" where
  "is_space c =
     (c \<in> set [CHR '' '', CHR 0x09, CHR 0x0A, CHR 0x0B, CHR 0x0C, CHR 0x0D])"

definition is_digit :: "char \<Rightarrow> bool" where
  "is_digit c = (48 \<le> (of_char c :: nat) \<and> (of_char c :: nat) \<le> 57)"

definition digit_val :: "char \<Rightarrow> int" where
  "digit_val c = int (of_char c) - 48"

definition strip :: "string \<Rightarrow> string" where
  "strip s = rev (dropWhile is_space (rev (dropWhile is_space s)))"

fun digits_from :: "int \<Rightarrow> string \<Rightarrow> int option" where
  "digits_from acc [] = Some acc"
| "digits_from acc [c] = (if is_digit c then Some (acc * 10 + digit_val c) else None)"
| "digits_from acc (c # d # cs) =
     (if is_digit c then digits_from (acc * 10 + digit_val c) (d # cs)
      else if c = CHR ''_'' \<and> is_digit d then digits_from (acc * 10 + digit_val d) cs
      else None)"

definition unsigned_int_of_str :: "string \<Rightarrow> int option" where
  "unsigned_int_of_str s =
     (case s of
        [] \<Rightarrow> None
      | c # cs \<Rightarrow> if is_digit c then digits_from (digit_val c) cs else None)"

definition int_of_str :: "string \<Rightarrow> int option" where
  "int_of_str word =
     (case strip word of
        [] \<Rightarrow> None
      | c # cs \<Rightarrow>
          if c = CHR ''-'' then map_option uminus (unsigned_int_of_str cs)
          else if c = CHR ''+'' then unsigned_int_of_str cs
          else unsigned_int_of_str (c # cs))"

text \<open>
  The inner loop of \<^verbatim>\<open>Map.__init__\<close> over the words of one line: it appends to
  \<^verbatim>\<open>self.tiles\<close> and counts the line's entries in the local \<^verbatim>\<open>width\<close>.
\<close>

fun read_words :: "string list \<Rightarrow> int list \<Rightarrow> int \<Rightarrow> error + (int list \<times> int)" where
  "read_words [] ts w = Inr (ts, w)"
| "read_words (word # ws) ts w =
     (if word = [] then read_words ws ts w
      else case int_of_str word of
             None \<Rightarrow> Inl ValueError
           | Some v \<Rightarrow> read_words ws (ts @ [v]) (w + 1))"

text \<open>The outer loop over the lines, on the fields of the map under construction.\<close>

fun read_lines :: "string list \<Rightarrow> Map \<Rightarrow> error + Map" where
  "read_lines [] m = Inr m"
| "read_lines (line # ls) m =
     (case read_words (split_sp line) (tiles m) 0 of
        Inl e \<Rightarrow> Inl e
      | Inr (ts, w) \<Rightarrow>
          if width m > 0 \<and> width m \<noteq> w then Inl RuntimeError
          else read_lines ls \<lparr>width = w, height = height m + 1, tiles = ts\<rparr>)"

definition Map_init :: "string \<Rightarrow> error + Map" where
  "Map_init text = read_lines (readlines text) \<lparr>width = 0, height = 0, tiles = []\<rparr>"

subsection \<open>Moving a box through the map\<close>

text \<open>
  \<^verbatim>\<open>move_box\<close> has two return statements: the early one returns the collision
  set alone, the final one the triple of collision set, position and velocity.
\<close>

datatype move_result =
  Result_Only "Collision set"
| Moved "Collision set" Point2d Vector2d

type_synonym move_state = "Collision set \<times> Point2d \<times> Vector2d"

text \<open>
  One pass through the body of the \<^verbatim>\<open>for\<close> loop of \<^verbatim>\<open>move_box\<close>, on the
  variables \<^verbatim>\<open>result\<close>, \<^verbatim>\<open>pos\<close> and \<^verbatim>\<open>vel\<close>. The source assigns to fields
  of \<^verbatim>\<open>new_pos\<close> and \<^verbatim>\<open>vel\<close> in place; \<^verbatim>\<open>new_pos\<close> is a fresh object in
  every pass and \<^verbatim>\<open>vel\<close> is read again only through the same variable, so passing
  the values gives the same results.
\<close>

definition move_step :: "Map \<Rightarrow> Vector2d \<Rightarrow> real \<Rightarrow> move_state \<Rightarrow> error + move_state" where
  "move_step m sz fraction s =
     (case s of (result, pos, vel) \<Rightarrow>
        (let new_pos = add pos (mul vel fraction)
         in (case test_box m new_pos sz of
               Inl e \<Rightarrow> Inl e
             | Inr collides \<Rightarrow>
                 if \<not> collides then Inr (result, new_pos, vel)
                 else
                   (case test_box m (Point2d (px pos) (py new_pos)) sz of
                      Inl e \<Rightarrow> Inl e
                    | Inr hit_y \<Rightarrow>
                        (let result1 = (if hit_y then insert Collision_Y result else result);
                             new_pos1 = (if hit_y then Point2d (px new_pos) (py pos) else new_pos);
                             vel1 = (if hit_y then Point2d (px vel) 0 else vel)
                         in (case test_box m (Point2d (px new_pos1) (py pos)) sz of
                               Inl e \<Rightarrow> Inl e
                             | Inr hit_x \<Rightarrow>
                                 (let result2 = (if hit_x then insert Collision_X result1 else result1);
                                      new_pos2 = (if hit_x then Point2d (px pos) (py new_pos1) else new_pos1);
                                      vel2 = (if hit_x then Point2d 0 (py vel1) else vel1);
                                      hit = (hit_y \<or> hit_x)
                                  in if \<not> hit
                                     then Inr (insert Collision_CORNER result2, pos, Point2d 0 0)
                                     else Inr (result2, new_pos2, vel2))))))))"

text \<open>The \<^verbatim>\<open>for\<close> loop: \<open>n\<close> passes, stopping at the first exception.\<close>

fun move_loop :: "Map \<Rightarrow> Vector2d \<Rightarrow> real \<Rightarrow> nat \<Rightarrow> move_state \<Rightarrow> error + move_state" where
  "move_loop m sz fraction 0 s = Inr s"
| "move_loop m sz fraction (Suc n) s =
     (case move_step m sz fraction s of
        Inl e \<Rightarrow> Inl e
      | Inr s' \<Rightarrow> move_loop m sz fraction n s')"

text \<open>\<^verbatim>\<open>range(0, maximum + 1)\<close> has \<open>maximum + 1\<close> elements, none when that is negative.\<close>

definition move_box :: "Map \<Rightarrow> Point2d \<Rightarrow> Vector2d \<Rightarrow> Vector2d \<Rightarrow> error + move_result" where
  "move_box m pos vel sz =
     (let distance = len vel;
          maximum = py_int distance;
          result = {}
      in if distance < 0 then Inr (Result_Only result)
         else if maximum + 1 = 0 then Inl ZeroDivisionError
         else
           let fraction = 1 / of_int (maximum + 1)
           in case move_loop m sz fraction (nat (maximum + 1)) (result, pos, vel) of
                Inl e \<Rightarrow> Inl e
              | Inr (result', pos', vel') \<Rightarrow> Inr (Moved result' pos' vel'))"

subsection \<open>The body update of one tick\<close>

text \<open>\<^verbatim>\<open>class Player\<close> without its texture, and \<^verbatim>\<open>class Game\<close> without renderer and camera.\<close>

record Player =
  player_pos :: Point2d
  player_vel :: Vector2d

record Game =
  inputs :: "Input \<Rightarrow> bool"
  player :: Player
  game_map :: Map

definition restart :: "Player \<Rightarrow> Player" where
  "restart p = p\<lparr>player_pos := Point2d 170 500, player_vel := Point2d 0 0\<rparr>"

text \<open>
  \<^verbatim>\<open>Game.physics\<close>. Unpacking the early return value of \<^verbatim>\<open>move_box\<close>, a set
  with no element, into three names raises \<^verbatim>\<open>ValueError\<close>.
\<close>

definition physics :: "Game \<Rightarrow> error + Game" where
  "physics g =
     (let p = (if inputs g RESTART then restart (player g) else player g)
      in (case on_ground (game_map g) (player_pos p) PLAYER_SIZE of
            Inl e \<Rightarrow> Inl e
          | Inr ground \<Rightarrow>
              (let v1 = (if inputs g JUMP \<and> ground
                         then Point2d (px (player_vel p)) (- 21) else player_vel p);
                   direction = (if inputs g RIGHT then 1 else 0) - (if inputs g LEFT then 1 else 0);
                   v2 = Point2d (px v1) (py v1 + 0.75);
                   v3 = (if ground then Point2d (0.5 * px v2 + 4.0 * direction) (py v2)
                         else Point2d (0.95 * px v2 + 2.0 * direction) (py v2));
                   v4 = Point2d (min (max (px v3) (- 8)) 8) (py v3)
               in (case move_box (game_map g) (player_pos p) v4 PLAYER_SIZE of
                     Inl e \<Rightarrow> Inl e
                   | Inr (Result_Only collisions) \<Rightarrow> Inl ValueError
                   | Inr (Moved collisions pos' vel') \<Rightarrow>
                       Inr (g\<lparr>player := p\<lparr>player_pos := pos', player_vel := vel'\<rparr>\<rparr>)))))"

subsection \<open>The fixed-step loop\<close>



subsection \<open>Notions of the specification\<close>

text \<open>
  A well-formed grid, in the specification's words: at least one column, at least one
  row, and as many tiles as cells.
\<close>

definition well_formed :: "Map \<Rightarrow> bool" where
  "well_formed m =
     (1 \<le> width m \<and> 1 \<le> height m \<and> int (length (tiles m)) = width m * height m)"

text \<open>
  Rounding to the nearest integer with ties away from zero, the rounding that the
  specification names for \<open>isSolidPoint\<close>.
\<close>

definition round_half_away :: "real \<Rightarrow> int" where
  "round_half_away r = (if 0 \<le> r then \<lfloor>r + 1 / 2\<rfloor> else - \<lfloor>- r + 1 / 2\<rfloor>)"

text \<open>
  The rows of a map file as the loader counts them: the entries of a line are its
  non-empty pieces between single spaces, and a file is readable when \<^verbatim>\<open>int\<close>
  accepts every entry.
\<close>

definition row_words :: "string \<Rightarrow> string list" where
  "row_words line = filter (\<lambda>word. word \<noteq> []) (split_sp line)"

definition rows_parse :: "string list \<Rightarrow> bool" where
  "rows_parse ls = list_all (\<lambda>line. list_all (\<lambda>word. int_of_str word \<noteq> None) (row_words line)) ls"

definition all_words_parse :: "string \<Rightarrow> bool" where
  "all_words_parse text = rows_parse (readlines text)"

definition row_counts :: "string \<Rightarrow> int list" where
  "row_counts text = map (\<lambda>line. int (length (row_words line))) (readlines text)"

definition row_values :: "string \<Rightarrow> int list" where
  "row_values line = map (\<lambda>word. the (int_of_str word)) (row_words line)"






subsection \<open>Example maps\<close>

text \<open>
  Small maps on which the functions are run below: a room with a solid right column, a
  room with a solid bottom row, a room with a single solid tile at the lower right, and a
  single tile of air.
\<close>

definition wall_map :: Map where
  "wall_map = \<lparr>width = 3, height = 3, tiles = [0, 0, 1, 0, 0, 1, 0, 0, 1]\<rparr>"



definition air_map :: Map where
  "air_map = \<lparr>width = 1, height = 1, tiles = [0]\<rparr>"

section \<open>Tile lookup\<close>

lemma py_int_of_int_div: "py_int (of_int i / 64) = sgn i * (\<bar>i\<bar> div 64)"
proof (cases "0 \<le> i")
  case True
  then have "py_int (of_int i / 64) = \<lfloor>(of_int i :: real) / of_int 64\<rfloor>"
    by (simp add: py_int_def)
  also have "\<dots> = i div 64" by (simp only: floor_divide_of_int_eq)
  finally show ?thesis using True by (cases "i = 0") (simp_all add: sgn_if)
next
  case False
  then have neg: "i < 0" by simp
  then have "(of_int i :: real) / 64 < 0" by simp
  then have "py_int (of_int i / 64) = \<lceil>(of_int i :: real) / of_int 64\<rceil>"
    by (simp add: py_int_def)
  also have "\<dots> = - \<lfloor>(of_int (- i) :: real) / of_int 64\<rfloor>"
    by (simp add: ceiling_def)
  also have "\<dots> = - ((- i) div 64)" by (simp only: floor_divide_of_int_eq)
  finally show ?thesis using neg by (simp add: sgn_if)
qed

lemma clamp_range:
  fixes a w :: int
  assumes "1 \<le> w"
  shows "0 \<le> min (max a 0) (w - 1)" and "min (max a 0) (w - 1) \<le> w - 1"
  using assms by simp_all

lemma clamp_index:
  fixes w h row col :: int
  assumes "0 \<le> col" "col \<le> w - 1" "0 \<le> row" "row \<le> h - 1"
  shows "0 \<le> row * w + col \<and> row * w + col < w * h"
proof -
  have w: "0 \<le> w" using assms by linarith
  have "row * w \<le> (h - 1) * w" using assms(4) w by (rule mult_right_mono)
  then have "row * w + col \<le> (h - 1) * w + (w - 1)" using assms by linarith
  also have "\<dots> = w * h - 1" by (simp add: algebra_simps)
  finally have "row * w + col < w * h" by simp
  moreover have "0 \<le> row * w" using assms w by simp
  ultimately show ?thesis using assms by simp
qed

lemma get_tile_clamped:
  "get_tile m x y =
     getitem (tiles m)
       (min (max (sgn y * (\<bar>y\<bar> div 64)) 0) (height m - 1) * width m +
        min (max (sgn x * (\<bar>x\<bar> div 64)) 0) (width m - 1))"
  unfolding get_tile_def TILE_SIZE_def Let_def Point2d.sel py_int_of_int_div ..

lemma get_tile_total:
  assumes "well_formed m"
  shows "\<exists>t. get_tile m x y = Inr t"
proof -
  define col where "col = min (max (sgn x * (\<bar>x\<bar> div 64)) 0) (width m - 1)"
  define row where "row = min (max (sgn y * (\<bar>y\<bar> div 64)) 0) (height m - 1)"
  have wf: "1 \<le> width m" "1 \<le> height m" "int (length (tiles m)) = width m * height m"
    using assms by (simp_all add: well_formed_def)
  have c: "0 \<le> col" "col \<le> width m - 1"
    unfolding col_def using wf(1) by (rule clamp_range)+
  have r: "0 \<le> row" "row \<le> height m - 1"
    unfolding row_def using wf(2) by (rule clamp_range)+
  have "0 \<le> row * width m + col \<and> row * width m + col < width m * height m"
    using c r by (rule clamp_index)
  then have "0 \<le> row * width m + col" "row * width m + col < int (length (tiles m))"
    using wf(3) by simp_all
  then have "getitem (tiles m) (row * width m + col) = Inr (tiles m ! nat (row * width m + col))"
    by (simp add: getitem_def Let_def)
  then show ?thesis unfolding get_tile_clamped col_def row_def by (rule exI)
qed

section \<open>Rounding in the point query\<close>

lemma py_round_nearest: "\<bar>of_int (py_round r) - r\<bar> \<le> 1 / 2"
  unfolding py_round_def Let_def by (auto; linarith)

lemma py_round_tie_even: "\<bar>of_int (py_round r) - r\<bar> = 1 / 2 \<Longrightarrow> even (py_round r)"
  unfolding py_round_def Let_def by (auto split: if_splits; linarith)

lemma round_half_away_cases:
  "round_half_away r = py_round r \<or>
   (even (py_round r) \<and> 0 \<le> py_round r \<and> round_half_away r = py_round r + 1) \<or>
   (py_round r \<le> 0 \<and> round_half_away r = py_round r - 1)"
proof -
  define f where "f = \<lfloor>r\<rfloor>"
  define d where "d = r - of_int f"
  have d: "0 \<le> d" "d < 1" unfolding d_def f_def by linarith+
  have r: "r = of_int f + d" by (simp add: d_def)
  have P: "py_round r =
      (if d < 1 / 2 then f else if 1 / 2 < d then f + 1 else if even f then f else f + 1)"
    by (simp add: py_round_def Let_def f_def d_def)
  show ?thesis
  proof (cases "0 \<le> r")
    case True
    then have f0: "0 \<le> f" by (simp add: f_def)
    have A: "round_half_away r = (if d < 1 / 2 then f else f + 1)"
    proof (cases "d < 1 / 2")
      case True
      have "\<lfloor>r + 1 / 2\<rfloor> = f" using d True by (intro floor_unique) (simp_all add: r)
      then show ?thesis using \<open>0 \<le> r\<close> True by (simp add: round_half_away_def)
    next
      case False
      have "\<lfloor>r + 1 / 2\<rfloor> = f + 1" using d False by (intro floor_unique) (simp_all add: r)
      then show ?thesis using \<open>0 \<le> r\<close> False by (simp add: round_half_away_def)
    qed
    show ?thesis using f0 by (simp add: A P)
  next
    case False
    then have f0: "f < 0" by (simp add: f_def floor_less_iff)
    have B: "round_half_away r = (if d \<le> 1 / 2 then f else f + 1)"
    proof (cases "d \<le> 1 / 2")
      case True
      have "\<lfloor>- r + 1 / 2\<rfloor> = - f" using d True by (intro floor_unique) (simp_all add: r)
      then show ?thesis using \<open>\<not> 0 \<le> r\<close> True by (simp add: round_half_away_def)
    next
      case False
      have "\<lfloor>- r + 1 / 2\<rfloor> = - f - 1" using d False by (intro floor_unique) (simp_all add: r)
      then show ?thesis using \<open>\<not> 0 \<le> r\<close> False by (simp add: round_half_away_def)
    qed
    show ?thesis using f0 by (auto simp add: B P)
  qed
qed

lemma div64_succ_even: "max ((i + 1) div 64) 0 = max (i div 64) 0" if "even i" for i :: int
proof -
  have "(i + 1) div 64 = i div 64"
  proof -
    have "i mod 64 \<noteq> 63"
    proof
      assume "i mod 64 = 63"
      then have "(i mod 64) mod 2 = 1" by simp
      then have "i mod 2 = 1" by (simp add: mod_mod_cancel)
      then show False using that by presburger
    qed
    moreover have "0 \<le> i mod 64" "i mod 64 < 64" by simp_all
    ultimately have "i mod 64 + 1 < 64" by linarith
    have "i = 64 * (i div 64) + i mod 64" by simp
    then have "i + 1 = 64 * (i div 64) + (i mod 64 + 1)" by linarith
    then have "(i + 1) div 64 = (64 * (i div 64) + (i mod 64 + 1)) div 64" by simp
    also have "\<dots> = i div 64 + (i mod 64 + 1) div 64" by (simp only: div_mult_self2 [OF _] ) 
    finally show ?thesis using \<open>i mod 64 + 1 < 64\<close> \<open>0 \<le> i mod 64\<close> by simp
  qed
  then show ?thesis by simp
qed

lemma clamped_quotient:
  "max (sgn i * (\<bar>i\<bar> div 64)) 0 = max (i div 64) 0" for i :: int
proof (cases "0 \<le> i")
  case True
  then show ?thesis by (cases "i = 0") (simp_all add: sgn_if)
next
  case False
  then have "i < 0" by simp
  then have "i div 64 < 0" by (simp add: div_neg_pos_less0)
  moreover have "0 \<le> (- i) div 64" using \<open>i < 0\<close> by (simp add: pos_imp_zdiv_nonneg_iff)
  ultimately show ?thesis using \<open>i < 0\<close> by (simp add: sgn_if max_def)
qed

lemma div64_nonpos: "max (i div 64) 0 = 0" if "i \<le> 0" for i :: int
proof -
  have "i div 64 \<le> 0" using that by (simp add: div_int_pos_iff zdiv_mono1_neg div_nonpos_pos_le0)
  then show ?thesis by simp
qed

lemma tile_of_rounded:
  "max (sgn (py_round r) * (\<bar>py_round r\<bar> div 64)) 0 =
   max (sgn (round_half_away r) * (\<bar>round_half_away r\<bar> div 64)) 0"
proof -
  from round_half_away_cases [of r]
  have "max (py_round r div 64) 0 = max (round_half_away r div 64) 0"
  proof (elim disjE conjE)
    assume "round_half_away r = py_round r"
    then show ?thesis by simp
  next
    assume "even (py_round r)" "round_half_away r = py_round r + 1"
    then show ?thesis by (simp only: div64_succ_even)
  next
    assume a: "py_round r \<le> 0" "round_half_away r = py_round r - 1"
    then have "round_half_away r \<le> 0" by simp
    then show ?thesis using a(1) by (simp only: div64_nonpos)
  qed
  then show ?thesis by (simp only: clamped_quotient)
qed

lemma get_tile_rounding:
  "get_tile m (py_round a) (py_round b) = get_tile m (round_half_away a) (round_half_away b)"
  unfolding get_tile_clamped tile_of_rounded [of a] tile_of_rounded [of b] ..

text \<open>
  C2, as amended. \<open>is_solid\<close> looks up the tile at the integers nearest to the
  point's coordinates, a coordinate halfway between two integers going to the even one
  (Python 3's \<^verbatim>\<open>round\<close>), not to the one farther from zero. The tile found is
  nevertheless the one that rounding ties away from zero would find, for every point:
  the two roundings differ only between an even integer and its odd neighbour farther
  from zero, which share a tile column (row) once clamped.
\<close>

theorem is_solid_rounding:
  "\<exists>i j. is_solid m (Point2d a b) = is_tile_solid m i j \<and>
     \<bar>of_int i - a\<bar> \<le> 1 / 2 \<and> (\<bar>of_int i - a\<bar> = 1 / 2 \<longrightarrow> even i) \<and>
     \<bar>of_int j - b\<bar> \<le> 1 / 2 \<and> (\<bar>of_int j - b\<bar> = 1 / 2 \<longrightarrow> even j) \<and>
     is_tile_solid m i j = is_tile_solid m (round_half_away a) (round_half_away b)"
proof -
  have "is_solid m (Point2d a b) = is_tile_solid m (py_round a) (py_round b)"
    by (simp add: is_solid_def)
  moreover have "is_tile_solid m (py_round a) (py_round b) =
      is_tile_solid m (round_half_away a) (round_half_away b)"
    unfolding is_tile_solid_def get_tile_rounding ..
  ultimately show ?thesis
    using py_round_nearest [of a] py_round_nearest [of b]
      py_round_tie_even [of a] py_round_tie_even [of b]
    by blast
qed

theorem is_solid_rounding_witness:
  "is_solid \<lparr>width = 2, height = 1, tiles = [0, 1]\<rparr> (Point2d (5 / 2) (129 / 2)) = Inr False \<and>
   is_solid \<lparr>width = 2, height = 1, tiles = [0, 1]\<rparr> (Point2d (127 / 2) (1 / 2)) = Inr True"
  using is_solid_rounding [of "\<lparr>width = 2, height = 1, tiles = [0, 1]\<rparr>" "5 / 2" "129 / 2"]
  by (simp add: is_solid_def is_tile_solid_def get_tile_clamped getitem_def py_round_def
      AIR_def START_def FINISH_def)

text \<open>
  C2 as stated fails: at 2.5 the rounding of \<open>is_solid\<close> gives 2, and ties away from
  zero would give 3.
\<close>

theorem is_solid_ties_away_counterexample:
  "py_round (5 / 2) = 2 \<and> round_half_away (5 / 2) = 3 \<and>
   is_solid \<lparr>width = 2, height = 1, tiles = [0, 1]\<rparr> (Point2d (5 / 2) (5 / 2)) =
     is_tile_solid \<lparr>width = 2, height = 1, tiles = [0, 1]\<rparr> 2 2"
  by (simp add: is_solid_def py_round_def round_half_away_def)

section \<open>Rounding to a double\<close>

lemma bit_length_bounds:
  "0 < n \<Longrightarrow> 2 ^ (bit_length n - 1) \<le> n \<and> n < 2 ^ bit_length n"
proof (induction n rule: bit_length.induct)
  case (1 n)
  show ?case
  proof (cases "n div 2 = 0")
    case True
    with "1.prems" have "n = 1" by (simp add: div_eq_0_iff) 
    then show ?thesis by (simp add: bit_length.simps [of "Suc 0"] bit_length.simps [of 0])
  next
    case False
    then have pos: "0 < n div 2" by simp
    from "1.prems" have n0: "n \<noteq> 0" by simp
    from "1.IH" [OF n0 pos]
    have ih: "2 ^ (bit_length (n div 2) - 1) \<le> n div 2" "n div 2 < 2 ^ bit_length (n div 2)"
      by simp_all
    have b: "bit_length n = Suc (bit_length (n div 2))"
      using n0 by (simp add: bit_length.simps [of n])
    have bl: "0 < bit_length (n div 2)"
      using pos by (simp add: bit_length.simps [of "n div 2"])
    have "2 ^ bit_length (n div 2) \<le> 2 * (n div 2)"
    proof -
      have "(2::nat) ^ bit_length (n div 2) = 2 * 2 ^ (bit_length (n div 2) - 1)"
        using bl by (cases "bit_length (n div 2)") simp_all
      then show ?thesis using ih(1) by simp
    qed
    then have lo: "2 ^ (bit_length n - 1) \<le> n" unfolding b by simp
    have "n div 2 + 1 \<le> 2 ^ bit_length (n div 2)" using ih(2) by simp
    then have "2 * (n div 2) + 2 \<le> 2 * 2 ^ bit_length (n div 2)" by simp
    then have hi: "n < 2 ^ bit_length n" unfolding b by simp
    from lo hi show ?thesis by simp
  qed
qed

lemma bit_length_pos: "0 < n \<Longrightarrow> 0 < bit_length n"
  by (simp add: bit_length.simps [of n])

lemma ilog2_bounds:
  assumes "0 < r"
  shows "2 powi ilog2 r \<le> r" and "r < 2 powi (ilog2 r + 1)"
proof -
  have "2 powi ilog2 r \<le> r \<and> r < 2 powi (ilog2 r + 1)"
  proof (cases "1 \<le> r")
    case True
    define n where "n = nat \<lfloor>r\<rfloor>"
    have n: "0 < n" "real n \<le> r" "r < real n + 1"
      using True by (simp_all add: n_def)
    from bit_length_bounds [OF n(1)]
    have b: "2 ^ (bit_length n - 1) \<le> n" "n < 2 ^ bit_length n" by simp_all
    have i: "ilog2 r = int (bit_length n) - 1" using True by (simp add: ilog2_def n_def)
    have p: "0 < bit_length n" using n(1) by (rule bit_length_pos)
    have "2 powi (int (bit_length n) - 1) = (2::real) ^ (bit_length n - 1)"
      using p by (simp add: power_int_def nat_diff_distrib')
    also have "\<dots> \<le> real n" using of_nat_mono [OF b(1), where ?'a = real] by simp
    finally have lo: "2 powi ilog2 r \<le> r" using n(2) i by simp
    have "Suc n \<le> 2 ^ bit_length n" using b(2) by simp
    from of_nat_mono [OF this, where ?'a = real]
    have "real n + 1 \<le> 2 ^ bit_length n" by simp
    then have hi: "r < 2 powi (ilog2 r + 1)" using n(3) i by simp
    from lo hi show ?thesis by simp
  next
    case False
    then have r1: "r < 1" by simp
    then have inv: "1 < 1 / r" using assms by simp
    define k where "k = nat (\<lceil>1 / r\<rceil> - 1)"
    have "2 \<le> \<lceil>1 / r\<rceil>" using inv by linarith
    then have k: "0 < k" "real k < 1 / r" "1 / r \<le> real k + 1"
      by (simp_all add: k_def) linarith+
    from bit_length_bounds [OF k(1)]
    have b: "2 ^ (bit_length k - 1) \<le> k" "k < 2 ^ bit_length k" by simp_all
    have i: "ilog2 r = - int (bit_length k)" using False by (simp add: ilog2_def k_def)
    have p: "0 < bit_length k" using k(1) by (rule bit_length_pos)
    have "Suc k \<le> 2 ^ bit_length k" using b(2) by simp
    from of_nat_mono [OF this, where ?'a = real]
    have "real k + 1 \<le> 2 ^ bit_length k" by simp
    then have "1 / r \<le> 2 ^ bit_length k" using k(3) by simp
    then have "1 / 2 ^ bit_length k \<le> r"
      using assms by (simp add: field_simps)
    then have lo: "2 powi ilog2 r \<le> r"
      unfolding i by (simp add: power_int_minus divide_inverse)
    have "(2::real) ^ (bit_length k - 1) \<le> real k"
      using of_nat_mono [OF b(1), where ?'a = real] by simp
    then have "(2::real) ^ (bit_length k - 1) < 1 / r" using k(2) by (rule le_less_trans)
    then have "r < 1 / 2 ^ (bit_length k - 1)"
      using assms by (simp add: field_simps)
    moreover have "2 powi (- int (bit_length k) + 1) = 1 / (2::real) ^ (bit_length k - 1)"
    proof -
      have "- int (bit_length k) + 1 = - int (bit_length k - 1)" using p by simp
      then show ?thesis by (simp only: power_int_minus power_int_of_nat divide_inverse mult_1)
    qed
    ultimately have hi: "r < 2 powi (ilog2 r + 1)" unfolding i by simp
    from lo hi show ?thesis by simp
  qed
  then show "2 powi ilog2 r \<le> r" and "r < 2 powi (ilog2 r + 1)" by simp_all
qed

lemma ilog2_unique:
  assumes "0 < r" and "2 powi e \<le> r" and "r < 2 powi (e + 1)"
  shows "ilog2 r = e"
proof (rule antisym)
  show "ilog2 r \<le> e"
  proof (rule ccontr)
    assume "\<not> ilog2 r \<le> e"
    then have "e + 1 \<le> ilog2 r" by simp
    then have "(2::real) powi (e + 1) \<le> 2 powi ilog2 r" by (intro power_int_increasing) simp_all
    with ilog2_bounds(1) [OF assms(1)] assms(3) show False by simp
  qed
  show "e \<le> ilog2 r"
  proof (rule ccontr)
    assume "\<not> e \<le> ilog2 r"
    then have "ilog2 r + 1 \<le> e" by simp
    then have "(2::real) powi (ilog2 r + 1) \<le> 2 powi e" by (intro power_int_increasing) simp_all
    with ilog2_bounds(2) [OF assms(1)] assms(2) show False by simp
  qed
qed

lemma ilog2_mono:
  assumes "0 < x" and "x \<le> y"
  shows "ilog2 x \<le> ilog2 y"
proof (rule ccontr)
  assume "\<not> ilog2 x \<le> ilog2 y"
  then have "ilog2 y + 1 \<le> ilog2 x" by simp
  then have "(2::real) powi (ilog2 y + 1) \<le> 2 powi ilog2 x" by (intro power_int_increasing) simp_all
  moreover have "0 < y" using assms by simp
  ultimately show False
    using ilog2_bounds(1) [OF assms(1)] ilog2_bounds(2) [OF \<open>0 < y\<close>] assms(2) by simp
qed

lemma py_round_unique:
  assumes "\<bar>of_int i - r\<bar> \<le> 1 / 2" and "\<bar>of_int i - r\<bar> = 1 / 2 \<longrightarrow> even i"
  shows "py_round r = i"
proof (rule ccontr)
  assume ne: "py_round r \<noteq> i"
  define p where "p = py_round r"
  have pn: "\<bar>of_int p - r\<bar> \<le> 1 / 2" unfolding p_def by (rule py_round_nearest)
  have pe: "\<bar>of_int p - r\<bar> = 1 / 2 \<Longrightarrow> even p" unfolding p_def by (rule py_round_tie_even)
  have "\<bar>real_of_int p - of_int i\<bar> \<le> 1" using pn assms(1) by linarith
  then have "\<bar>p - i\<bar> \<le> 1" by linarith
  with ne have d: "p = i + 1 \<or> p = i - 1" unfolding p_def by linarith
  then have "real_of_int p = of_int i + 1 \<or> real_of_int p = of_int i - 1" by auto
  then have "\<bar>of_int p - r\<bar> = 1 / 2 \<and> \<bar>of_int i - r\<bar> = 1 / 2"
    using pn assms(1) by linarith
  then have "even p" "even i" using pe assms(2) by simp_all
  with d show False by auto
qed

lemma py_round_of_int: "py_round (of_int n) = n"
  by (rule py_round_unique) simp_all

lemma py_round_uminus: "py_round (- r) = - py_round r"
proof (rule py_round_unique)
  have e: "\<bar>real_of_int (- py_round r) - (- r)\<bar> = \<bar>of_int (py_round r) - r\<bar>" by simp
  show "\<bar>real_of_int (- py_round r) - (- r)\<bar> \<le> 1 / 2"
    unfolding e by (rule py_round_nearest)
  show "\<bar>real_of_int (- py_round r) - (- r)\<bar> = 1 / 2 \<longrightarrow> even (- py_round r)"
    unfolding e using py_round_tie_even [of r] by simp
qed

lemma py_round_mono:
  assumes "a \<le> b"
  shows "py_round a \<le> py_round b"
proof (rule ccontr)
  assume "\<not> py_round a \<le> py_round b"
  then have gt: "py_round b + 1 \<le> py_round a" by simp
  have na: "\<bar>of_int (py_round a) - a\<bar> \<le> 1 / 2" by (rule py_round_nearest)
  have nb: "\<bar>of_int (py_round b) - b\<bar> \<le> 1 / 2" by (rule py_round_nearest)
  have g: "real_of_int (py_round b) + 1 \<le> of_int (py_round a)" using gt by linarith
  have "a = b" using na nb g assms by linarith
  then show False using gt by simp
qed

lemma pow2_pos: "0 < (2::real) powi u"
  by simp

lemma pow2_add: "(2::real) powi (a + b) = 2 powi a * 2 powi b"
  by (rule power_int_add) simp

lemma grid_upper:
  assumes "r \<le> real_of_int n * 2 powi u"
  shows "real_of_int (py_round (r / 2 powi u)) * 2 powi u \<le> real_of_int n * 2 powi u"
proof -
  have "r / 2 powi u \<le> of_int n" using assms by (simp add: field_simps)
  then have "py_round (r / 2 powi u) \<le> py_round (of_int n)" by (rule py_round_mono)
  then have "py_round (r / 2 powi u) \<le> n" by (simp only: py_round_of_int)
  then have "real_of_int (py_round (r / 2 powi u)) \<le> of_int n" by simp
  then show ?thesis by (rule mult_right_mono) simp
qed

lemma grid_lower:
  assumes "real_of_int n * 2 powi u \<le> r"
  shows "real_of_int n * 2 powi u \<le> real_of_int (py_round (r / 2 powi u)) * 2 powi u"
proof -
  have "of_int n \<le> r / 2 powi u" using assms by (simp add: field_simps)
  then have "py_round (of_int n) \<le> py_round (r / 2 powi u)" by (rule py_round_mono)
  then have "n \<le> py_round (r / 2 powi u)" by (simp only: py_round_of_int)
  then have "real_of_int n \<le> real_of_int (py_round (r / 2 powi u))" by simp
  then show ?thesis by (rule mult_right_mono) simp
qed

lemma round_double_pos:
  assumes "0 < r"
  shows "round_double r = real_of_int (py_round (r / 2 powi ulp_exponent r)) * 2 powi ulp_exponent r"
  using assms by (simp add: round_double_def Let_def)

lemma binade_upper:
  assumes "0 < r"
  shows "r < 2 powi (ulp_exponent r + 53)"
proof -
  have "ilog2 r + 1 \<le> ulp_exponent r + 53" using assms by (simp add: ulp_exponent_def)
  then have "(2::real) powi (ilog2 r + 1) \<le> 2 powi (ulp_exponent r + 53)"
    by (intro power_int_increasing) simp_all
  with ilog2_bounds(2) [OF assms] show ?thesis by simp
qed

lemma round_double_upper:
  assumes "0 < r"
  shows "round_double r \<le> 2 powi (ulp_exponent r + 53)"
proof -
  have p: "(2::real) powi (ulp_exponent r + 53) = of_int (2 ^ 53) * 2 powi ulp_exponent r"
    by (simp add: pow2_add)
  have "r \<le> of_int (2 ^ 53) * 2 powi ulp_exponent r"
    using binade_upper [OF assms] unfolding p by simp
  then show ?thesis unfolding round_double_pos [OF assms] p by (rule grid_upper)
qed

lemma round_double_lower:
  assumes "0 < r" and "- 1022 \<le> ilog2 r"
  shows "2 powi (ulp_exponent r + 52) \<le> round_double r"
proof -
  have u: "ulp_exponent r + 52 = ilog2 r" using assms by (simp add: ulp_exponent_def)
  have p: "(2::real) powi (ulp_exponent r + 52) = of_int (2 ^ 52) * 2 powi ulp_exponent r"
    by (simp add: pow2_add)
  have "of_int (2 ^ 52) * 2 powi ulp_exponent r \<le> r"
    using ilog2_bounds(1) [OF assms(1)] unfolding p [symmetric] u .
  then show ?thesis unfolding round_double_pos [OF assms(1)] p by (rule grid_lower)
qed

lemma round_double_nonneg:
  assumes "0 \<le> r"
  shows "0 \<le> round_double r"
proof (cases "r = 0")
  case True
  then show ?thesis by (simp add: round_double_def)
next
  case False
  with assms have r: "0 < r" by simp
  have "of_int 0 * 2 powi ulp_exponent r \<le> r" using r by simp
  from grid_lower [OF this] show ?thesis unfolding round_double_pos [OF r] by simp
qed

lemma round_double_mono:
  assumes "0 \<le> x" and "x \<le> y"
  shows "round_double x \<le> round_double y"
proof (cases "x = 0")
  case True
  then show ?thesis using round_double_nonneg [of y] assms by (simp add: round_double_def)
next
  case False
  with assms have x: "0 < x" and y: "0 < y" by simp_all
  have le: "ulp_exponent x \<le> ulp_exponent y"
    using ilog2_mono [OF x assms(2)] x y by (simp add: ulp_exponent_def)
  show ?thesis
  proof (cases "ulp_exponent x = ulp_exponent y")
    case True
    have "x / 2 powi ulp_exponent y \<le> y / 2 powi ulp_exponent y"
      using assms(2) by (simp add: divide_right_mono)
    then have "py_round (x / 2 powi ulp_exponent y) \<le> py_round (y / 2 powi ulp_exponent y)"
      by (rule py_round_mono)
    then have "real_of_int (py_round (x / 2 powi ulp_exponent y))
        \<le> real_of_int (py_round (y / 2 powi ulp_exponent y))" by simp
    then have "real_of_int (py_round (x / 2 powi ulp_exponent y)) * 2 powi ulp_exponent y
        \<le> real_of_int (py_round (y / 2 powi ulp_exponent y)) * 2 powi ulp_exponent y"
      by (rule mult_right_mono) simp
    then show ?thesis unfolding round_double_pos [OF x] round_double_pos [OF y] True .
  next
    case False
    with le have lt: "ulp_exponent x + 53 \<le> ulp_exponent y + 52" by simp
    then have n: "- 1022 \<le> ilog2 y" using y x by (simp add: ulp_exponent_def)
    have "round_double x \<le> 2 powi (ulp_exponent x + 53)" using x by (rule round_double_upper)
    also have "\<dots> \<le> 2 powi (ulp_exponent y + 52)"
      using lt by (intro power_int_increasing) simp_all
    also have "\<dots> \<le> round_double y" using y n by (rule round_double_lower)
    finally show ?thesis .
  qed
qed

lemma round_double_uminus: "round_double (- r) = - round_double r"
  by (simp add: round_double_def ulp_exponent_def Let_def py_round_uminus)

lemma ilog2_scaled:
  assumes "m \<noteq> 0" and "\<bar>m\<bar> < 2 ^ 53"
  shows "ilog2 \<bar>of_int m * 2 powi k\<bar> \<le> k + 52"
proof -
  define r where "r = \<bar>real_of_int m * 2 powi k\<bar>"
  have r: "0 < r" using assms(1) by (simp add: r_def)
  have "real_of_int \<bar>m\<bar> < real_of_int (2 ^ 53)" using assms(2) by (simp only: of_int_less_iff)
  then have "real_of_int \<bar>m\<bar> < 2 ^ 53" by simp
  then have "r < 2 ^ 53 * 2 powi k" by (simp add: r_def abs_mult)
  also have "\<dots> = 2 powi (k + 53)" by (simp add: pow2_add)
  finally have lt: "r < 2 powi (k + 53)" .
  have "ilog2 r < k + 53"
  proof (rule ccontr)
    assume "\<not> ilog2 r < k + 53"
    then have "(2::real) powi (k + 53) \<le> 2 powi ilog2 r" by (intro power_int_increasing) simp_all
    with ilog2_bounds(1) [OF r] lt show False by simp
  qed
  then show ?thesis by (simp add: r_def)
qed

lemma round_double_exact:
  assumes "\<bar>m\<bar> < 2 ^ 53" and "- 1074 \<le> k"
  shows "round_double (of_int m * 2 powi k) = of_int m * 2 powi k"
proof (cases "m = 0")
  case True
  then show ?thesis by (simp add: round_double_def)
next
  case False
  define r where "r = real_of_int m * 2 powi k"
  define u where "u = ulp_exponent r"
  have r0: "r \<noteq> 0" using False by (simp add: r_def)
  have "ilog2 \<bar>r\<bar> \<le> k + 52" unfolding r_def using False assms(1) by (rule ilog2_scaled)
  then have uk: "u \<le> k" using assms(2) by (simp add: u_def ulp_exponent_def)
  have "2 powi k = (2::real) powi (k - u) * 2 powi u"
    using pow2_add [of "k - u" u] by simp
  also have "(2::real) powi (k - u) = of_int (2 ^ nat (k - u))"
    using uk by (simp add: power_int_def)
  finally have pk: "2 powi k = real_of_int (2 ^ nat (k - u)) * 2 powi u" .
  have rr: "r = of_int (m * 2 ^ nat (k - u)) * 2 powi u"
    unfolding r_def by (subst pk) simp
  have "r / 2 powi u = of_int (m * 2 ^ nat (k - u))"
    by (subst rr) simp
  then have "py_round (r / 2 powi u) = m * 2 ^ nat (k - u)"
    by (simp only: py_round_of_int)
  then have "real_of_int (py_round (r / 2 powi u)) * 2 powi u = r"
    using rr by simp
  then show ?thesis using r0 unfolding r_def [symmetric] by (simp add: round_double_def Let_def u_def)
qed

lemma round_double_below:
  assumes "0 \<le> q" and "q < 2 ^ 1024 - 2 ^ 970"
  shows "round_double q < 2 ^ 1024"
proof (cases "q < 2 ^ 1023")
  case True
  have "round_double q \<le> round_double (2 ^ 1023)"
    using assms(1) True by (intro round_double_mono) simp_all
  also have "round_double (2 ^ 1023) = 2 ^ 1023"
    using round_double_exact [of 1 1023] by simp
  finally show ?thesis by simp
next
  case False
  then have lo: "2 powi 1023 \<le> q" by simp
  have hi: "q < 2 powi (1023 + 1)" using assms(2) by simp
  have q: "0 < q" using lo by (simp add: less_le_trans [of 0 "2 ^ 1023"])
  have "ilog2 q = 1023" using q lo hi by (rule ilog2_unique)
  then have u: "ulp_exponent q = 971" using q by (simp add: ulp_exponent_def)
  define v where "v = q / 2 powi 971"
  have "q < (2 ^ 53 - 1 / 2) * 2 powi 971" using assms(2) by simp
  then have v: "v < 2 ^ 53 - 1 / 2" unfolding v_def by (simp add: field_simps)
  have "\<bar>real_of_int (py_round v) - v\<bar> \<le> 1 / 2" by (rule py_round_nearest)
  with v have "real_of_int (py_round v) < 2 ^ 53" by linarith
  then have "real_of_int (py_round v) < real_of_int (2 ^ 53)" by simp
  then have "py_round v < 2 ^ 53" by (simp only: of_int_less_iff)
  then have "py_round v \<le> 2 ^ 53 - 1" by simp
  then have "real_of_int (py_round v) \<le> real_of_int (2 ^ 53 - 1)" by (simp only: of_int_le_iff)
  then have "real_of_int (py_round v) * 2 powi 971 \<le> real_of_int (2 ^ 53 - 1) * 2 powi 971"
    by (rule mult_right_mono) simp
  also have "\<dots> < 2 ^ 1024" by simp
  finally show ?thesis unfolding round_double_pos [OF q] u v_def .
qed

lemma round_double_in_range:
  assumes "\<bar>q\<bar> < 2 ^ 1024 - 2 ^ 970"
  shows "\<bar>round_double q\<bar> < 2 ^ 1024"
proof (cases "0 \<le> q")
  case True
  then have "round_double q < 2 ^ 1024" using assms by (intro round_double_below) simp_all
  then show ?thesis using round_double_nonneg [OF True] by simp
next
  case False
  then have n: "0 \<le> - q" by simp
  have "round_double (- q) < 2 ^ 1024" using n assms by (intro round_double_below) simp_all
  then show ?thesis using round_double_nonneg [OF n] by (simp add: round_double_uminus)
qed

lemma quotient_in_range:
  assumes "\<bar>x\<bar> < 2 ^ 1030 - 2 ^ 976"
  shows "int_truediv x 64 = Inr (round_double (of_int x / 64))"
proof -
  have "real_of_int \<bar>x\<bar> < real_of_int (2 ^ 1030 - 2 ^ 976)"
    using assms by (simp only: of_int_less_iff)
  then have "\<bar>real_of_int x / 64\<bar> < 2 ^ 1024 - 2 ^ 970" by simp
  then have "\<bar>round_double (of_int x / 64)\<bar> < 2 ^ 1024" by (rule round_double_in_range)
  then show ?thesis by (simp add: int_truediv_def Let_def)
qed

lemma quotient_exact:
  assumes "\<bar>x\<bar> < 2 ^ 53"
  shows "round_double (of_int x / 64) = of_int x / 64"
proof -
  have "real_of_int x * 2 powi (- 6) = of_int x / 64"
    by (simp add: power_int_minus field_simps)
  with round_double_exact [OF assms, of "- 6"] show ?thesis by simp
qed

lemma get_tile_float_clamped:
  assumes "\<bar>x\<bar> < 2 ^ 1030 - 2 ^ 976" and "\<bar>y\<bar> < 2 ^ 1030 - 2 ^ 976"
  shows "get_tile_float m x y =
     getitem (tiles m)
       (min (max (py_int (round_double (of_int y / 64))) 0) (height m - 1) * width m +
        min (max (py_int (round_double (of_int x / 64))) 0) (width m - 1))"
  by (simp add: get_tile_float_def TILE_SIZE_def Let_def
      quotient_in_range [OF assms(1)] quotient_in_range [OF assms(2)])

section \<open>Tile lookup with the float quotient\<close>

text \<open>
  The integer value of a double is an integer of at most 53 significant bits times a power
  of two, below \<open>2\<^sup>1\<^sup>0\<^sup>2\<^sup>4\<close>. On two such integers the float quotients are exact and
  \<open>get_tile_float\<close> is \<open>get_tile\<close>; in particular on all integers below
  \<open>2\<^sup>5\<^sup>3\<close> in absolute value.
\<close>

lemma quotient_of_double:
  assumes "\<bar>mant\<bar> < 2 ^ 53"
  shows "round_double (of_int (mant * 2 ^ j) / 64) = of_int (mant * 2 ^ j) / 64"
proof -
  have "real_of_int mant * 2 powi (int j - 6) = of_int (mant * 2 ^ j) / 64"
    by (simp add: power_int_diff)
  with round_double_exact [OF assms, of "int j - 6"] show ?thesis by simp
qed

lemma double_in_range:
  fixes x :: int
  assumes "\<bar>x\<bar> < 2 ^ 1024"
  shows "\<bar>x\<bar> < 2 ^ 1030 - 2 ^ 976"
proof -
  have "(2::int) ^ 1024 \<le> 2 ^ 1030 - 2 ^ 976" by simp
  with assms show ?thesis by (rule order_less_le_trans)
qed

lemma get_tile_float_on_doubles:
  assumes "x = mx * 2 ^ jx" and "\<bar>mx\<bar> < 2 ^ 53" and "\<bar>x\<bar> < 2 ^ 1024"
    and "y = my * 2 ^ jy" and "\<bar>my\<bar> < 2 ^ 53" and "\<bar>y\<bar> < 2 ^ 1024"
  shows "get_tile_float m x y = get_tile m x y"
proof -
  have qx: "round_double (of_int x / 64) = of_int x / 64"
    unfolding assms(1) using assms(2) by (rule quotient_of_double)
  have qy: "round_double (of_int y / 64) = of_int y / 64"
    unfolding assms(4) using assms(5) by (rule quotient_of_double)
  have "get_tile_float m x y =
     getitem (tiles m)
       (min (max (py_int (round_double (of_int y / 64))) 0) (height m - 1) * width m +
        min (max (py_int (round_double (of_int x / 64))) 0) (width m - 1))"
    using assms(3,6) by (intro get_tile_float_clamped double_in_range)
  also have "\<dots> = get_tile m x y"
    unfolding qx qy by (simp add: get_tile_def TILE_SIZE_def Let_def)
  finally show ?thesis .
qed

lemma get_tile_float_small:
  assumes "\<bar>x\<bar> < 2 ^ 53" and "\<bar>y\<bar> < 2 ^ 53"
  shows "get_tile_float m x y = get_tile m x y"
proof -
  have "\<bar>x\<bar> < 2 ^ 1024" "\<bar>y\<bar> < 2 ^ 1024" using assms by simp_all
  with assms show ?thesis
    using get_tile_float_on_doubles [of x x 0 y y 0 m] by simp
qed

lemma half_even_quotient:
  "py_int (round_double (of_int (2 ^ 54 - 1) / 64)) = 2 ^ 48 \<and>
   ((2 ^ 54 - 1) div 64 :: int) = 2 ^ 48 - 1"
proof -
  define r :: real where "r = of_int (2 ^ 54 - 1) / 64"
  have pos: "0 < r" by (simp add: r_def)
  have "ilog2 r = 47" using pos by (rule ilog2_unique) (simp_all add: r_def)
  then have u: "ulp_exponent r = - 5" using pos by (simp add: ulp_exponent_def)
  have s: "r / 2 powi (- 5) = 9007199254740991 + 1 / 2"
    by (simp add: r_def power_int_minus)
  have fl: "\<lfloor>9007199254740991 + 1 / 2 :: real\<rfloor> = 9007199254740991"
    by (rule floor_unique) simp_all
  have p: "py_round (9007199254740991 + 1 / 2) = 9007199254740992"
    unfolding py_round_def Let_def fl by simp
  have "round_double r = of_int 9007199254740992 * 2 powi (- 5)"
    using pos unfolding round_double_def Let_def u s p by simp
  also have "\<dots> = 2 ^ 48" by (simp add: power_int_minus)
  finally have "py_int (round_double r) = 2 ^ 48" by (simp add: py_int_def)
  then show ?thesis by (simp add: r_def)
qed

text \<open>
  C7, as amended. On a well-formed grid and for coordinates below \<open>2\<^sup>1\<^sup>0\<^sup>3\<^sup>0 - 2\<^sup>9\<^sup>7\<^sup>6\<close> in
  absolute value, \<open>get_tile_float\<close> does not fail: the column is the double nearest to
  \<open>x / 64\<close>, truncated toward zero and clamped into \<open>[0, width - 1]\<close>, the row
  likewise from \<open>y\<close> into \<open>[0, height - 1]\<close>, the index \<open>row * width + col\<close> lies
  in \<open>[0, width * height)\<close>, inside the tiles, and the tile stored there is returned.
  For a coordinate below \<open>2\<^sup>5\<^sup>3\<close> in absolute value the quotient is exact, and the
  column or row is the integer quotient by 64 truncated toward zero, clamped.
\<close>

theorem get_tile_in_bounds:
  assumes "well_formed m"
    and "\<bar>x\<bar> < 2 ^ 1030 - 2 ^ 976" and "\<bar>y\<bar> < 2 ^ 1030 - 2 ^ 976"
  shows "\<exists>col row.
           col = min (max (py_int (round_double (of_int x / 64))) 0) (width m - 1) \<and>
           row = min (max (py_int (round_double (of_int y / 64))) 0) (height m - 1) \<and>
           (\<bar>x\<bar> < 2 ^ 53 \<longrightarrow> col = min (max (sgn x * (\<bar>x\<bar> div 64)) 0) (width m - 1)) \<and>
           (\<bar>y\<bar> < 2 ^ 53 \<longrightarrow> row = min (max (sgn y * (\<bar>y\<bar> div 64)) 0) (height m - 1)) \<and>
           0 \<le> col \<and> col \<le> width m - 1 \<and> 0 \<le> row \<and> row \<le> height m - 1 \<and>
           0 \<le> row * width m + col \<and> row * width m + col < width m * height m \<and>
           row * width m + col < int (length (tiles m)) \<and>
           get_tile_float m x y = Inr (tiles m ! nat (row * width m + col))"
proof -
  define col where "col = min (max (py_int (round_double (of_int x / 64))) 0) (width m - 1)"
  define row where "row = min (max (py_int (round_double (of_int y / 64))) 0) (height m - 1)"
  have wf: "1 \<le> width m" "1 \<le> height m" "int (length (tiles m)) = width m * height m"
    using assms(1) by (simp_all add: well_formed_def)
  have c: "0 \<le> col" "col \<le> width m - 1"
    unfolding col_def using wf(1) by (rule clamp_range)+
  have r: "0 \<le> row" "row \<le> height m - 1"
    unfolding row_def using wf(2) by (rule clamp_range)+
  have idx: "0 \<le> row * width m + col \<and> row * width m + col < width m * height m"
    using c r by (rule clamp_index)
  then have lo: "0 \<le> row * width m + col" and hi: "row * width m + col < width m * height m"
    by simp_all
  have len: "row * width m + col < int (length (tiles m))"
    using hi wf(3) by simp
  have "get_tile_float m x y = getitem (tiles m) (row * width m + col)"
    unfolding get_tile_float_clamped [OF assms(2,3)] col_def row_def ..
  also have "\<dots> = Inr (tiles m ! nat (row * width m + col))"
    using lo len by (simp add: getitem_def Let_def)
  finally have g: "get_tile_float m x y = Inr (tiles m ! nat (row * width m + col))" .
  have ex: "\<bar>x\<bar> < 2 ^ 53 \<longrightarrow> col = min (max (sgn x * (\<bar>x\<bar> div 64)) 0) (width m - 1)"
  proof
    assume "\<bar>x\<bar> < 2 ^ 53"
    then show "col = min (max (sgn x * (\<bar>x\<bar> div 64)) 0) (width m - 1)"
      unfolding col_def by (simp only: quotient_exact py_int_of_int_div)
  qed
  have ey: "\<bar>y\<bar> < 2 ^ 53 \<longrightarrow> row = min (max (sgn y * (\<bar>y\<bar> div 64)) 0) (height m - 1)"
  proof
    assume "\<bar>y\<bar> < 2 ^ 53"
    then show "row = min (max (sgn y * (\<bar>y\<bar> div 64)) 0) (height m - 1)"
      unfolding row_def by (simp only: quotient_exact py_int_of_int_div)
  qed
  from col_def row_def ex ey c r lo hi len g show ?thesis by blast
qed

theorem get_tile_in_bounds_witness:
  "well_formed \<lparr>width = 2, height = 1, tiles = [0, 1]\<rparr> \<and>
   get_tile_float \<lparr>width = 2, height = 1, tiles = [0, 1]\<rparr> 100000 (- 100000) = Inr 1"
proof -
  let ?m = "\<lparr>width = 2, height = 1, tiles = [0, 1]\<rparr>"
  have wf: "well_formed ?m" by (simp add: well_formed_def)
  have hx: "\<bar>100000 :: int\<bar> < 2 ^ 1030 - 2 ^ 976" by simp
  have hy: "\<bar>- 100000 :: int\<bar> < 2 ^ 1030 - 2 ^ 976" by simp
  from get_tile_in_bounds [OF wf hx hy] obtain col row where
    cx: "\<bar>100000 :: int\<bar> < 2 ^ 53 \<longrightarrow>
         col = min (max (sgn 100000 * (\<bar>100000\<bar> div 64)) 0) (width ?m - 1)" and
    cy: "\<bar>- 100000 :: int\<bar> < 2 ^ 53 \<longrightarrow>
         row = min (max (sgn (- 100000) * (\<bar>- 100000\<bar> div 64)) 0) (height ?m - 1)" and
    g: "get_tile_float ?m 100000 (- 100000) = Inr (tiles ?m ! nat (row * width ?m + col))"
    by blast
  have "col = 1" using cx by simp
  moreover have "row = 0" using cy by simp
  ultimately have "get_tile_float ?m 100000 (- 100000) = Inr 1" using g by simp
  with wf show ?thesis by simp
qed

text \<open>
  C7 as stated fails: a coordinate of \<open>2\<^sup>1\<^sup>0\<^sup>3\<^sup>0\<close> on a well-formed grid raises
  \<^verbatim>\<open>OverflowError\<close> in the division, before any clamping. And beyond \<open>2\<^sup>5\<^sup>3\<close>
  the quotient is not always the truncated one: \<open>(2\<^sup>5\<^sup>4 - 1) / 64\<close> lies halfway
  between two doubles and is rounded up to \<open>2\<^sup>4\<^sup>8\<close>, one more than the integer
  quotient (the column differs only on a map wider than that).
\<close>

theorem get_tile_overflow_counterexample:
  "well_formed \<lparr>width = 2, height = 1, tiles = [0, 1]\<rparr> \<and>
   get_tile_float \<lparr>width = 2, height = 1, tiles = [0, 1]\<rparr> (2 ^ 1030) 0 = Inl OverflowError \<and>
   py_int (round_double (of_int (2 ^ 54 - 1) / 64)) = 2 ^ 48 \<and>
   ((2 ^ 54 - 1) div 64 :: int) = 2 ^ 48 - 1"
proof -
  have "round_double (of_int (2 ^ 1030) / 64) = 2 ^ 1024"
    using round_double_exact [of 1 1024] by simp
  then have "int_truediv (2 ^ 1030) 64 = Inl OverflowError"
    by (simp add: int_truediv_def Let_def)
  then have "well_formed \<lparr>width = 2, height = 1, tiles = [0, 1]\<rparr> \<and>
     get_tile_float \<lparr>width = 2, height = 1, tiles = [0, 1]\<rparr> (2 ^ 1030) 0 = Inl OverflowError"
    by (simp add: get_tile_float_def TILE_SIZE_def well_formed_def)
  with half_even_quotient show ?thesis by (simp only: simp_thms)
qed

section \<open>Queries on a well-formed map\<close>

lemma or_else_simps:
  "or_else (Inl e) b = Inl e"
  "or_else (Inr True) b = Inr True"
  "or_else (Inr False) b = b"
  by (simp_all add: or_else_def)

lemma is_solid_total:
  assumes "well_formed m"
  shows "\<exists>b. is_solid m p = Inr b"
proof -
  obtain t where "get_tile m (py_round (px p)) (py_round (py p)) = Inr t"
    using get_tile_total [OF assms] by blast
  then show ?thesis by (simp add: is_solid_def is_tile_solid_def)
qed

lemma or_else_total:
  assumes "\<exists>b. a = Inr b" and "\<exists>b. c = Inr b"
  shows "\<exists>b. or_else a c = Inr b"
  using assms by (auto simp: or_else_def)

lemma test_box_total:
  assumes "well_formed m"
  shows "\<exists>b. test_box m p sz = Inr b"
  unfolding test_box_def Let_def
  by (intro or_else_total is_solid_total assms)

lemma on_ground_total:
  assumes "well_formed m"
  shows "\<exists>b. on_ground m p sz = Inr b"
  unfolding on_ground_def Let_def
  by (intro or_else_total is_solid_total assms)

section \<open>One pass of the resolver\<close>

lemma move_step_free:
  assumes "test_box m (add pos (mul vel fraction)) sz = Inr False"
  shows "move_step m sz fraction (res, pos, vel) = Inr (res, add pos (mul vel fraction), vel)"
  using assms by (simp add: move_step_def Let_def)

lemma move_step_x:
  assumes "test_box m (add pos (mul vel fraction)) sz = Inr True"
    and "test_box m (Point2d (px pos) (py (add pos (mul vel fraction)))) sz = Inr False"
    and "test_box m (Point2d (px (add pos (mul vel fraction))) (py pos)) sz = Inr True"
  shows "move_step m sz fraction (res, pos, vel) =
    Inr (insert Collision_X res, Point2d (px pos) (py (add pos (mul vel fraction))),
         Point2d 0 (py vel))"
  using assms by (simp add: move_step_def Let_def)

lemma move_step_y:
  assumes "test_box m (add pos (mul vel fraction)) sz = Inr True"
    and "test_box m (Point2d (px pos) (py (add pos (mul vel fraction)))) sz = Inr True"
    and "test_box m (Point2d (px (add pos (mul vel fraction))) (py pos)) sz = Inr False"
  shows "move_step m sz fraction (res, pos, vel) =
    Inr (insert Collision_Y res, Point2d (px (add pos (mul vel fraction))) (py pos),
         Point2d (px vel) 0)"
  using assms by (simp add: move_step_def Let_def)

lemma move_step_xy:
  assumes "test_box m (add pos (mul vel fraction)) sz = Inr True"
    and "test_box m (Point2d (px pos) (py (add pos (mul vel fraction)))) sz = Inr True"
    and "test_box m (Point2d (px (add pos (mul vel fraction))) (py pos)) sz = Inr True"
  shows "move_step m sz fraction (res, pos, vel) =
    Inr (insert Collision_X (insert Collision_Y res), pos, Point2d 0 0)"
  using assms by (simp add: move_step_def Let_def)

lemma move_step_corner:
  assumes "test_box m (add pos (mul vel fraction)) sz = Inr True"
    and "test_box m (Point2d (px pos) (py (add pos (mul vel fraction)))) sz = Inr False"
    and "test_box m (Point2d (px (add pos (mul vel fraction))) (py pos)) sz = Inr False"
  shows "move_step m sz fraction (res, pos, vel) =
    Inr (insert Collision_CORNER res, pos, Point2d 0 0)"
  using assms by (simp add: move_step_def Let_def)

lemma move_step_cases:
  assumes "move_step m sz fraction (res, pos, vel) = Inr (res', pos', vel')"
  defines "new \<equiv> add pos (mul vel fraction)"
  shows "(test_box m new sz = Inr False \<and> res' = res \<and> pos' = new \<and> vel' = vel) \<or>
         (test_box m new sz = Inr True \<and>
          test_box m (Point2d (px pos) (py new)) sz = Inr False \<and>
          test_box m (Point2d (px new) (py pos)) sz = Inr True \<and>
          res' = insert Collision_X res \<and> pos' = Point2d (px pos) (py new) \<and>
          vel' = Point2d 0 (py vel)) \<or>
         (test_box m new sz = Inr True \<and>
          test_box m (Point2d (px pos) (py new)) sz = Inr True \<and>
          test_box m (Point2d (px new) (py pos)) sz = Inr False \<and>
          res' = insert Collision_Y res \<and> pos' = Point2d (px new) (py pos) \<and>
          vel' = Point2d (px vel) 0) \<or>
         (test_box m new sz = Inr True \<and>
          test_box m (Point2d (px pos) (py new)) sz = Inr True \<and>
          test_box m (Point2d (px new) (py pos)) sz = Inr True \<and>
          res' = insert Collision_X (insert Collision_Y res) \<and> pos' = pos \<and>
          vel' = Point2d 0 0) \<or>
         (test_box m new sz = Inr True \<and>
          test_box m (Point2d (px pos) (py new)) sz = Inr False \<and>
          test_box m (Point2d (px new) (py pos)) sz = Inr False \<and>
          res' = insert Collision_CORNER res \<and> pos' = pos \<and> vel' = Point2d 0 0)"
proof (cases "test_box m new sz")
  case (Inl e)
  with assms(1) show ?thesis by (simp add: move_step_def Let_def new_def)
next
  case c: (Inr collides)
  show ?thesis
  proof (cases collides)
    case False
    with c assms(1) show ?thesis by (auto simp add: move_step_def Let_def new_def)
  next
    case True
    with c have c: "test_box m new sz = Inr True" by simp
    show ?thesis
    proof (cases "test_box m (Point2d (px pos) (py new)) sz")
      case (Inl e)
      with c assms(1) show ?thesis by (simp add: move_step_def Let_def new_def)
    next
      case y: (Inr hit_y)
      show ?thesis
      proof (cases "test_box m (Point2d (px new) (py pos)) sz")
        case (Inl e)
        with c y assms(1) show ?thesis
          by (cases hit_y) (simp_all add: move_step_def Let_def new_def)
      next
        case x: (Inr hit_x)
        from c y x have
          "test_box m (add pos (mul vel fraction)) sz = Inr True"
          "test_box m (Point2d (px pos) (py (add pos (mul vel fraction)))) sz = Inr hit_y"
          "test_box m (Point2d (px (add pos (mul vel fraction))) (py pos)) sz = Inr hit_x"
          by (simp_all add: new_def)
        with assms(1) c x y show ?thesis
          by (cases hit_y; cases hit_x)
             (simp_all add: move_step_x move_step_y move_step_xy move_step_corner new_def)
      qed
    qed
  qed
qed

lemma move_step_safe:
  assumes "test_box m pos sz = Inr False"
    and "move_step m sz fraction (res, pos, vel) = Inr (res', pos', vel')"
  shows "test_box m pos' sz = Inr False"
  using move_step_cases [OF assms(2)] assms(1) by (elim disjE conjE) simp_all

lemma move_step_grows:
  assumes "move_step m sz fraction (res, pos, vel) = Inr (res', pos', vel')"
  shows "res \<subseteq> res'"
  using move_step_cases [OF assms] by (elim disjE conjE) auto

lemma move_step_total3:
  assumes "well_formed m"
  shows "\<exists>s'. move_step m sz fraction (res, pos, vel) = Inr s'"
proof -
  define new where "new = add pos (mul vel fraction)"
  obtain c where c: "test_box m new sz = Inr c" using test_box_total [OF assms] by blast
  obtain hy where hy: "test_box m (Point2d (px pos) (py new)) sz = Inr hy"
    using test_box_total [OF assms] by blast
  obtain hx where hx: "test_box m (Point2d (px new) (py pos)) sz = Inr hx"
    using test_box_total [OF assms] by blast
  show ?thesis
    using c hy hx unfolding new_def
    by (cases c; cases hy; cases hx) (simp_all add: move_step_def Let_def)
qed

lemma move_step_total:
  assumes "well_formed m"
  shows "\<exists>s'. move_step m sz fraction s = Inr s'"
proof (cases s)
  case (fields res pos vel)
  show ?thesis unfolding fields using assms by (rule move_step_total3)
qed

lemma move_loop_safe:
  assumes "test_box m pos sz = Inr False"
    and "move_loop m sz fraction n (res, pos, vel) = Inr (res', pos', vel')"
  shows "test_box m pos' sz = Inr False"
  using assms
proof (induction n arbitrary: res pos vel)
  case 0
  then show ?case by simp
next
  case (Suc n)
  from Suc.prems(2) obtain r1 p1 v1 where
    step: "move_step m sz fraction (res, pos, vel) = Inr (r1, p1, v1)" and
    rest: "move_loop m sz fraction n (r1, p1, v1) = Inr (res', pos', vel')"
    by (auto split: sum.splits)
  from move_step_safe [OF Suc.prems(1) step] have "test_box m p1 sz = Inr False" .
  then show ?case using rest by (rule Suc.IH)
qed

lemma move_loop_total:
  assumes "well_formed m"
  shows "\<exists>s'. move_loop m sz fraction n s = Inr s'"
proof (induction n arbitrary: s)
  case 0
  show ?case by (rule exI [of _ s]) simp
next
  case (Suc n)
  obtain s1 where "move_step m sz fraction s = Inr s1"
    using move_step_total [OF assms] by blast
  then show ?case using Suc [of s1] by simp
qed

lemma len_nonneg: "0 \<le> len v"
  by (simp add: len_def)

lemma py_int_nonneg: "0 \<le> r \<Longrightarrow> 0 \<le> py_int r"
  by (simp add: py_int_def)

lemma move_box_loop:
  "move_box m pos vel sz =
     (case move_loop m sz (1 / of_int (py_int (len vel) + 1)) (nat (py_int (len vel) + 1))
             ({}, pos, vel) of
        Inl e \<Rightarrow> Inl e
      | Inr (res, p, v) \<Rightarrow> Inr (Moved res p v))"
proof -
  have "\<not> len vel < 0" using len_nonneg [of vel] by simp
  moreover have "py_int (len vel) + 1 \<noteq> 0" using py_int_nonneg [OF len_nonneg [of vel]] by simp
  ultimately show ?thesis by (simp add: move_box_def Let_def)
qed

lemma candidate_coords:
  "add pos (mul vel fraction) =
     Point2d (px pos + px vel * fraction) (py pos + py vel * fraction)"
  by (simp add: add_def mul_def)

lemma candidate_zero: "add pos (mul (Point2d 0 0) fraction) = pos"
  by (simp add: add_def mul_def)



lemma len_zero: "len (Point2d 0 0) = 0"
  by (simp add: len_def)

section \<open>Runs on the example maps\<close>

lemma is_solid_eval:
  "is_solid m (Point2d a b) =
     (case getitem (tiles m)
        (min (max (sgn (py_round b) * (\<bar>py_round b\<bar> div 64)) 0) (height m - 1) * width m +
         min (max (sgn (py_round a) * (\<bar>py_round a\<bar> div 64)) 0) (width m - 1)) of
        Inl e \<Rightarrow> Inl e
      | Inr t \<Rightarrow> Inr (t \<noteq> 0 \<and> t \<noteq> 78 \<and> t \<noteq> 110))"
  by (simp add: is_solid_def is_tile_solid_def get_tile_clamped AIR_def START_def FINISH_def
      split: sum.splits)

lemma test_box_eval:
  "test_box m (Point2d a b) (Point2d w h) =
     or_else (is_solid m (Point2d (a - w / 2) (b - h / 2)))
    (or_else (is_solid m (Point2d (a + w / 2) (b - h / 2)))
    (or_else (is_solid m (Point2d (a - w / 2) (b + h / 2)))
             (is_solid m (Point2d (a + w / 2) (b + h / 2)))))"
  by (simp add: test_box_def mul_def)

lemmas box_eval = PLAYER_SIZE_def test_box_eval is_solid_eval py_round_def getitem_def or_else_simps

lemma py_int_sqrt:
  assumes "0 \<le> n" and "(of_int n)\<^sup>2 \<le> x" and "x < (of_int n + 1)\<^sup>2"
  shows "py_int (sqrt x) = n"
proof -
  have x: "0 \<le> x" using assms(2) by (meson order_trans zero_le_power2)
  have n: "(0::real) \<le> of_int n" using assms(1) by simp
  have "of_int n \<le> sqrt x" using assms(2) by (rule real_le_rsqrt)
  moreover have "sqrt x < of_int n + 1"
    using assms(3) n by (intro real_less_lsqrt) simp_all
  moreover have "0 \<le> sqrt x" using x by simp
  ultimately show ?thesis by (simp add: py_int_def floor_eq_iff)
qed

lemma steps_diagonal: "py_int (len (Point2d 1 1)) = 1"
  unfolding len_def by (rule py_int_sqrt) (simp_all add: power2_eq_square)

lemma wall_map_well_formed: "well_formed wall_map"
  by (simp add: well_formed_def wall_map_def)

lemma wall_start: "test_box wall_map (Point2d 95 96) PLAYER_SIZE = Inr False"
  by (simp add: box_eval wall_map_def)

lemma wall_step1:
  "move_step wall_map PLAYER_SIZE (1 / 2) ({}, Point2d 95 96, Point2d 1 1) =
     Inr ({Collision_X}, Point2d 95 (193 / 2), Point2d 0 1)"
proof -
  have "test_box wall_map (Point2d (191 / 2) (193 / 2)) PLAYER_SIZE = Inr True"
    "test_box wall_map (Point2d 95 (193 / 2)) PLAYER_SIZE = Inr False"
    "test_box wall_map (Point2d (191 / 2) 96) PLAYER_SIZE = Inr True"
    by (simp_all add: box_eval wall_map_def)
  then show ?thesis
    using move_step_x [of wall_map "Point2d 95 96" "Point2d 1 1" "1 / 2" PLAYER_SIZE "{}"]
    by (simp add: candidate_coords)
qed

lemma wall_step2:
  "move_step wall_map PLAYER_SIZE (1 / 2) ({Collision_X}, Point2d 95 (193 / 2), Point2d 0 1) =
     Inr ({Collision_X}, Point2d 95 97, Point2d 0 1)"
proof -
  have "test_box wall_map (Point2d 95 97) PLAYER_SIZE = Inr False"
    by (simp add: box_eval wall_map_def)
  then show ?thesis
    using move_step_free [of wall_map "Point2d 95 (193 / 2)" "Point2d 0 1" "1 / 2" PLAYER_SIZE
        "{Collision_X}"]
    by (simp add: candidate_coords)
qed

lemma wall_run:
  "move_box wall_map (Point2d 95 96) (Point2d 1 1) PLAYER_SIZE =
     Inr (Moved {Collision_X} (Point2d 95 97) (Point2d 0 1))"
  unfolding move_box_loop steps_diagonal
  by (simp add: numeral_2_eq_2 wall_step1 wall_step2)






section \<open>The box test\<close>

text \<open>
  C3, as amended. On a well-formed map \<open>test_box\<close> reports a collision iff one of the
  four points \<open>c \<plusminus> h * 0.5\<close> (component-wise) is solid for \<open>is_solid\<close>: the offsets
  of the tested corners are half of the size passed. The player passes its full size,
  \<open>PLAYER_SIZE\<close> of 64 by 64, so its corners are tested at offsets of 32, the box of the
  64 by 64 sprite, not at offsets of 16.
\<close>

theorem test_box_corners:
  assumes "well_formed m"
  shows "(\<exists>b1 b2 b3 b4.
           is_solid m (Point2d (px c - px h * 0.5) (py c - py h * 0.5)) = Inr b1 \<and>
           is_solid m (Point2d (px c + px h * 0.5) (py c - py h * 0.5)) = Inr b2 \<and>
           is_solid m (Point2d (px c - px h * 0.5) (py c + py h * 0.5)) = Inr b3 \<and>
           is_solid m (Point2d (px c + px h * 0.5) (py c + py h * 0.5)) = Inr b4 \<and>
           test_box m c h = Inr (b1 \<or> b2 \<or> b3 \<or> b4)) \<and>
         mul PLAYER_SIZE 0.5 = Point2d 32 32"
proof -
  obtain b1 where b1: "is_solid m (Point2d (px c - px h * 0.5) (py c - py h * 0.5)) = Inr b1"
    using is_solid_total [OF assms] by blast
  obtain b2 where b2: "is_solid m (Point2d (px c + px h * 0.5) (py c - py h * 0.5)) = Inr b2"
    using is_solid_total [OF assms] by blast
  obtain b3 where b3: "is_solid m (Point2d (px c - px h * 0.5) (py c + py h * 0.5)) = Inr b3"
    using is_solid_total [OF assms] by blast
  obtain b4 where b4: "is_solid m (Point2d (px c + px h * 0.5) (py c + py h * 0.5)) = Inr b4"
    using is_solid_total [OF assms] by blast
  have "test_box m c h = Inr (b1 \<or> b2 \<or> b3 \<or> b4)"
    using b1 b2 b3 b4 by (simp add: test_box_def mul_def or_else_def Let_def)
  moreover have "mul PLAYER_SIZE 0.5 = Point2d 32 32"
    by (simp add: PLAYER_SIZE_def mul_def)
  ultimately show ?thesis using b1 b2 b3 b4 by blast
qed

theorem test_box_corners_witness:
  "well_formed wall_map \<and>
   test_box wall_map (Point2d 100 96) PLAYER_SIZE = Inr True \<and>
   is_solid wall_map (Point2d 132 128) = Inr True \<and>
   mul PLAYER_SIZE 0.5 = Point2d 32 32"
  using test_box_corners [OF wall_map_well_formed, of "Point2d 100 96" PLAYER_SIZE]
  by (simp add: well_formed_def box_eval wall_map_def mul_def)

text \<open>
  C3 as stated fails: the size passed for the player is 64 by 64, and at (100, 96) beside
  the wall its box collides although none of the four points at offsets of 16 is solid.
\<close>

theorem test_box_quarter_size_counterexample:
  "PLAYER_SIZE = Point2d 64 64 \<and>
   test_box wall_map (Point2d 100 96) PLAYER_SIZE = Inr True \<and>
   is_solid wall_map (Point2d (100 - 16) (96 - 16)) = Inr False \<and>
   is_solid wall_map (Point2d (100 + 16) (96 - 16)) = Inr False \<and>
   is_solid wall_map (Point2d (100 - 16) (96 + 16)) = Inr False \<and>
   is_solid wall_map (Point2d (100 + 16) (96 + 16)) = Inr False"
  by (simp add: box_eval wall_map_def)

section \<open>The resolver\<close>

subsection \<open>A run into a vertical wall\<close>




















text \<open>
  C6. From a position whose box is not in a solid tile, \<open>move_box\<close> with velocity
  (0, 0) returns the empty collision set, the same position and velocity (0, 0), for
  every map and size.
\<close>

theorem move_box_zero_velocity:
  assumes "test_box m pos sz = Inr False"
  shows "move_box m pos (Point2d 0 0) sz = Inr (Moved {} pos (Point2d 0 0))"
proof -
  have "move_step m sz 1 ({}, pos, Point2d 0 0) = Inr ({}, pos, Point2d 0 0)"
    using move_step_free [of m pos "Point2d 0 0" 1 sz "{}"] assms
    by (simp add: candidate_zero)
  then show ?thesis
    unfolding move_box_loop len_zero by (simp add: py_int_def)
qed

theorem move_box_zero_velocity_witness:
  "test_box wall_map (Point2d 95 96) PLAYER_SIZE = Inr False \<and>
   move_box wall_map (Point2d 95 96) (Point2d 0 0) PLAYER_SIZE =
     Inr (Moved {} (Point2d 95 96) (Point2d 0 0))"
  using move_box_zero_velocity [OF wall_start] wall_start by simp

text \<open>
  C10. When the box is not in a solid tile at the start, it is not in one at the position
  \<open>move_box\<close> returns, nor at the position reached after any number of passes of its
  loop; \<open>move_box\<close> then always ends in its final return, and on a well-formed map it
  does return.
\<close>

theorem move_box_non_penetration:
  assumes "test_box m pos sz = Inr False"
  shows "(\<forall>r. move_box m pos vel sz = Inr r \<longrightarrow>
            (\<exists>res p v. r = Moved res p v \<and> test_box m p sz = Inr False)) \<and>
         (\<forall>k res p v.
            move_loop m sz (1 / of_int (py_int (len vel) + 1)) k ({}, pos, vel) = Inr (res, p, v) \<longrightarrow>
            test_box m p sz = Inr False) \<and>
         (well_formed m \<longrightarrow> (\<exists>res p v. move_box m pos vel sz = Inr (Moved res p v)))"
proof (intro conjI allI impI)
  fix r
  assume "move_box m pos vel sz = Inr r"
  then obtain res p v where
    l: "move_loop m sz (1 / of_int (py_int (len vel) + 1)) (nat (py_int (len vel) + 1))
          ({}, pos, vel) = Inr (res, p, v)" and r: "r = Moved res p v"
    unfolding move_box_loop by (auto split: sum.splits)
  from move_loop_safe [OF assms l] r
  show "\<exists>res p v. r = Moved res p v \<and> test_box m p sz = Inr False" by blast
next
  fix k res p v
  assume "move_loop m sz (1 / of_int (py_int (len vel) + 1)) k ({}, pos, vel) = Inr (res, p, v)"
  with assms show "test_box m p sz = Inr False" by (rule move_loop_safe)
next
  assume "well_formed m"
  then obtain s' where
    "move_loop m sz (1 / of_int (py_int (len vel) + 1)) (nat (py_int (len vel) + 1))
          ({}, pos, vel) = Inr s'"
    using move_loop_total by blast
  then show "\<exists>res p v. move_box m pos vel sz = Inr (Moved res p v)"
    unfolding move_box_loop by (cases s') simp
qed

theorem move_box_non_penetration_witness:
  "test_box wall_map (Point2d 95 96) PLAYER_SIZE = Inr False \<and>
   well_formed wall_map \<and>
   move_box wall_map (Point2d 95 96) (Point2d 1 1) PLAYER_SIZE =
     Inr (Moved {Collision_X} (Point2d 95 97) (Point2d 0 1)) \<and>
   test_box wall_map (Point2d 95 97) PLAYER_SIZE = Inr False"
  using move_box_non_penetration [OF wall_start, of "Point2d 1 1"] wall_start
    wall_map_well_formed wall_run
  by simp

section \<open>The restart tick\<close>

lemma air_solid: "is_solid air_map p = Inr False"
  by (cases p) (simp add: is_solid_eval air_map_def getitem_def)

lemma air_box: "test_box air_map p sz = Inr False"
  by (simp add: test_box_def Let_def air_solid or_else_simps)

lemma air_ground: "on_ground air_map p sz = Inr False"
  by (simp add: on_ground_def Let_def air_solid or_else_simps)

lemma steps_gravity: "py_int (len (Point2d 0 (3 / 4))) = 0"
  unfolding len_def by (rule py_int_sqrt) (simp_all add: power2_eq_square)

lemma air_fall:
  "move_box air_map (Point2d 170 500) (Point2d 0 (3 / 4)) PLAYER_SIZE =
     Inr (Moved {} (Point2d 170 (2003 / 4)) (Point2d 0 (3 / 4)))"
proof -
  have "move_step air_map PLAYER_SIZE 1 ({}, Point2d 170 500, Point2d 0 (3 / 4)) =
      Inr ({}, Point2d 170 (2003 / 4), Point2d 0 (3 / 4))"
    using move_step_free [of air_map "Point2d 170 500" "Point2d 0 (3 / 4)" 1 PLAYER_SIZE "{}"]
    by (simp add: air_box candidate_coords)
  then show ?thesis unfolding move_box_loop steps_gravity by simp
qed

text \<open>
  C1, as amended. In a tick with the restart intent set, \<open>physics\<close> first resets the
  player to the spawn point (170, 500) with velocity (0, 0) and then goes on with the
  same tick from that state: ground test at the spawn point, jump, gravity, horizontal
  blending, clamping and \<open>move_box\<close>. The post-tick state is what \<open>move_box\<close> returns
  from the spawn point for the velocity \<open>(4 * direction, y)\<close> on the ground and
  \<open>(2 * direction, y)\<close> in the air, where \<open>y\<close> is \<open>- 21 + 0.75\<close> after a jump from
  the ground and \<open>0.75\<close> otherwise.
\<close>

theorem physics_restart:
  assumes "inputs g RESTART"
  shows "physics g =
    (case on_ground (game_map g) (Point2d 170 500) PLAYER_SIZE of
       Inl e \<Rightarrow> Inl e
     | Inr ground \<Rightarrow>
        (case move_box (game_map g) (Point2d 170 500)
                (Point2d ((if ground then 4 else 2) *
                            ((if inputs g RIGHT then 1 else 0) - (if inputs g LEFT then 1 else 0)))
                         (if inputs g JUMP \<and> ground then - 20.25 else 0.75))
                PLAYER_SIZE of
           Inl e \<Rightarrow> Inl e
         | Inr (Result_Only collisions) \<Rightarrow> Inl ValueError
         | Inr (Moved collisions pos' vel') \<Rightarrow>
             Inr (g\<lparr>player := \<lparr>player_pos = pos', player_vel = vel'\<rparr>\<rparr>)))"
proof (cases "on_ground (game_map g) (Point2d 170 500) PLAYER_SIZE")
  case (Inl e)
  then show ?thesis using assms by (simp add: physics_def restart_def)
next
  case (Inr ground)
  show ?thesis
    using assms Inr
    by (cases ground; cases "inputs g RIGHT"; cases "inputs g LEFT"; cases "inputs g JUMP")
       (simp_all add: physics_def restart_def Let_def split: sum.splits move_result.splits)
qed

theorem physics_restart_witness:
  "physics \<lparr>inputs = (\<lambda>i. i = RESTART \<or> i = JUMP),
            player = \<lparr>player_pos = Point2d 300 200, player_vel = Point2d 5 (- 3)\<rparr>,
            game_map = air_map\<rparr> =
   Inr \<lparr>inputs = (\<lambda>i. i = RESTART \<or> i = JUMP),
        player = \<lparr>player_pos = Point2d 170 (2003 / 4), player_vel = Point2d 0 (3 / 4)\<rparr>,
        game_map = air_map\<rparr>"
  using physics_restart [of "\<lparr>inputs = (\<lambda>i. i = RESTART \<or> i = JUMP),
            player = \<lparr>player_pos = Point2d 300 200, player_vel = Point2d 5 (- 3)\<rparr>,
            game_map = air_map\<rparr>"]
  by (simp add: air_ground air_fall)

text \<open>
  C1 as stated fails: in a map of air, a tick with the restart intent ends at
  (170, 500.75) with velocity (0, 0.75), one step of gravity below the spawn point.
\<close>

theorem physics_restart_counterexample:
  "inputs \<lparr>inputs = (\<lambda>i. i = RESTART),
           player = \<lparr>player_pos = Point2d 300 200, player_vel = Point2d 5 (- 3)\<rparr>,
           game_map = air_map\<rparr> RESTART \<and>
   physics \<lparr>inputs = (\<lambda>i. i = RESTART),
            player = \<lparr>player_pos = Point2d 300 200, player_vel = Point2d 5 (- 3)\<rparr>,
            game_map = air_map\<rparr> =
   Inr \<lparr>inputs = (\<lambda>i. i = RESTART),
        player = \<lparr>player_pos = Point2d 170 (2003 / 4), player_vel = Point2d 0 (3 / 4)\<rparr>,
        game_map = air_map\<rparr> \<and>
   \<lparr>player_pos = Point2d 170 (2003 / 4), player_vel = Point2d 0 (3 / 4)\<rparr> \<noteq>
   \<lparr>player_pos = Point2d 170 500, player_vel = Point2d 0 0\<rparr>"
  by (simp add: physics_def restart_def air_ground air_fall)

section \<open>Tick scheduling\<close>












section \<open>Loading a map\<close>

lemma read_words_parsed:
  assumes "list_all (\<lambda>word. int_of_str word \<noteq> None) (filter (\<lambda>word. word \<noteq> []) ws)"
  shows "read_words ws ts w =
     Inr (ts @ map (\<lambda>word. the (int_of_str word)) (filter (\<lambda>word. word \<noteq> []) ws),
          w + int (length (filter (\<lambda>word. word \<noteq> []) ws)))"
  using assms by (induction ws arbitrary: ts w) auto

lemma read_row:
  assumes "list_all (\<lambda>word. int_of_str word \<noteq> None) (row_words line)"
  shows "read_words (split_sp line) ts 0 = Inr (ts @ row_values line, int (length (row_words line)))"
  using read_words_parsed [of "split_sp line" ts 0] assms
  by (simp add: row_words_def row_values_def)

lemma read_lines_fixed_width:
  assumes "rows_parse ls" and "0 < width m"
  shows "read_lines ls m =
     (if \<forall>line \<in> set ls. int (length (row_words line)) = width m
      then Inr \<lparr>width = width m, height = height m + int (length ls),
                tiles = tiles m @ concat (map row_values ls)\<rparr>
      else Inl RuntimeError)"
  using assms
proof (induction ls arbitrary: m)
  case Nil
  then show ?case by simp
next
  case (Cons line ls)
  from Cons.prems(1) have p: "list_all (\<lambda>word. int_of_str word \<noteq> None) (row_words line)"
    and ps: "rows_parse ls" by (simp_all add: rows_parse_def)
  show ?case
  proof (cases "int (length (row_words line)) = width m")
    case False
    then show ?thesis using Cons.prems(2) by (simp add: read_row [OF p])
  next
    case True
    let ?m = "\<lparr>width = int (length (row_words line)), height = height m + 1,
               tiles = tiles m @ row_values line\<rparr>"
    have w: "0 < width ?m" using True Cons.prems(2) by simp
    have "read_lines (line # ls) m = read_lines ls ?m"
      using True by (simp add: read_row [OF p])
    also note Cons.IH [OF ps w]
    finally show ?thesis using True by (simp add: algebra_simps)
  qed
qed

lemma read_lines_initial:
  assumes "rows_parse ls"
    and "\<forall>line \<in> set (butlast ls). 1 \<le> length (row_words line)"
  shows "read_lines ls \<lparr>width = 0, height = 0, tiles = []\<rparr> =
     (if \<forall>line \<in> set ls. length (row_words line) = length (row_words (hd ls))
      then Inr \<lparr>width = (if ls = [] then 0 else int (length (row_words (hd ls)))),
                height = int (length ls), tiles = concat (map row_values ls)\<rparr>
      else Inl RuntimeError)"
proof (cases ls)
  case Nil
  then show ?thesis by simp
next
  case (Cons line rest)
  from assms(1) Cons have p: "list_all (\<lambda>word. int_of_str word \<noteq> None) (row_words line)"
    and ps: "rows_parse rest" by (simp_all add: rows_parse_def)
  let ?m = "\<lparr>width = int (length (row_words line)), height = 1, tiles = row_values line\<rparr>"
  have first: "read_lines ls \<lparr>width = 0, height = 0, tiles = []\<rparr> = read_lines rest ?m"
    unfolding Cons by (simp add: read_row [OF p])
  show ?thesis
  proof (cases rest)
    case Nil
    then show ?thesis using first Cons by simp
  next
    case (Cons line2 rest2)
    then have "line \<in> set (butlast ls)" using \<open>ls = line # rest\<close> by simp
    with assms(2) have w: "0 < width ?m" by auto
    have "read_lines ls \<lparr>width = 0, height = 0, tiles = []\<rparr> =
      (if \<forall>l \<in> set rest. int (length (row_words l)) = width ?m
       then Inr \<lparr>width = width ?m, height = height ?m + int (length rest),
                 tiles = tiles ?m @ concat (map row_values rest)\<rparr>
       else Inl RuntimeError)"
      unfolding first using ps w by (rule read_lines_fixed_width)
    then show ?thesis unfolding \<open>ls = line # rest\<close> by (auto simp: algebra_simps)
  qed
qed

lemma split_from_nonempty: "split_from cur cs \<noteq> []"
  by (induction cs arbitrary: cur) auto

lemma split_from_last:
  assumes "cs = [] \<longrightarrow> cur \<noteq> []" and "cs \<noteq> [] \<longrightarrow> last cs \<noteq> CHR '' ''"
  shows "last (split_from cur cs) \<noteq> []"
  using assms
proof (induction cs arbitrary: cur)
  case Nil
  then show ?case by simp
next
  case (Cons c cs)
  show ?case
  proof (cases "c = CHR '' ''")
    case True
    with Cons.prems(2) have ne: "cs \<noteq> []" by auto
    then have "last (split_from [] cs) \<noteq> []"
      using Cons.prems(2) by (intro Cons.IH) auto
    then show ?thesis using True by (simp add: split_from_nonempty)
  next
    case False
    have "last (split_from (cur @ [c]) cs) \<noteq> []"
      using Cons.prems(2) by (intro Cons.IH) auto
    then show ?thesis using False by simp
  qed
qed

lemma row_of_ended_line:
  assumes "line \<noteq> []" and "last line = CHR 0x0A"
  shows "1 \<le> length (row_words line)"
proof -
  have "last (split_sp line) \<noteq> []"
    unfolding split_sp_def using assms by (intro split_from_last) auto
  moreover have "last (split_sp line) \<in> set (split_sp line)"
    unfolding split_sp_def by (rule last_in_set) (rule split_from_nonempty)
  ultimately have "last (split_sp line) \<in> set (row_words line)"
    by (simp add: row_words_def)
  then have "row_words line \<noteq> []" by auto
  then show ?thesis by (cases "row_words line") simp_all
qed

lemma readlines_from_ended:
  assumes "line \<in> set (butlast (readlines_from cur cs))"
  shows "line \<noteq> [] \<and> last line = CHR 0x0A"
  using assms
proof (induction cs arbitrary: cur)
  case Nil
  then show ?case by (simp split: if_splits)
next
  case (Cons c cs)
  show ?case
  proof (cases "c = CHR 0x0A")
    case True
    with Cons.prems have "line \<in> set (butlast ((cur @ [c]) # readlines_from [] cs))" by simp
    then have "line = cur @ [c] \<or> line \<in> set (butlast (readlines_from [] cs))"
      by (auto split: if_splits)
    then show ?thesis using True Cons.IH by auto
  next
    case False
    with Cons.prems Cons.IH show ?thesis by simp
  qed
qed

lemma readlines_rows:
  "\<forall>line \<in> set (butlast (readlines text)). 1 \<le> length (row_words line)"
  unfolding readlines_def using readlines_from_ended row_of_ended_line by blast

lemma concat_uniform:
  assumes "\<forall>l \<in> set ls. length (f l) = n"
  shows "length (concat (map f ls)) = n * length ls"
  using assms by (induction ls) simp_all

lemma counts_uniform:
  "(\<exists>c \<in> set (map (\<lambda>line. int (length (row_words line))) ls).
      c \<noteq> hd (map (\<lambda>line. int (length (row_words line))) ls)) \<longleftrightarrow>
   \<not> (\<forall>line \<in> set ls. length (row_words line) = length (row_words (hd ls)))"
  by (cases ls) auto

lemma Map_init_cases:
  assumes "all_words_parse text"
  shows "Map_init text =
      (if \<forall>line \<in> set (readlines text).
            length (row_words line) = length (row_words (hd (readlines text)))
       then Inr \<lparr>width = (if readlines text = [] then 0
                            else int (length (row_words (hd (readlines text))))),
                 height = int (length (readlines text)),
                 tiles = concat (map row_values (readlines text))\<rparr>
       else Inl RuntimeError)"
  unfolding Map_init_def
proof (rule read_lines_initial)
  show "rows_parse (readlines text)" using assms by (simp add: all_words_parse_def)
  show "\<forall>line\<in>set (butlast (readlines text)). 1 \<le> length (row_words line)"
    by (rule readlines_rows)
qed

lemma Map_init_success:
  assumes "all_words_parse text" and "Map_init text \<noteq> Inl RuntimeError"
  shows "\<exists>m. Map_init text = Inr m \<and>
           height m = int (length (row_counts text)) \<and>
           (\<forall>c \<in> set (row_counts text). c = width m) \<and>
           (row_counts text = [] \<longrightarrow> width m = 0) \<and>
           int (length (tiles m)) = width m * height m \<and>
           tiles m = concat (map row_values (readlines text))"
proof -
  define ls where "ls = readlines text"
  define n where "n = length (row_words (hd ls))"
  define M where "M = \<lparr>width = (if ls = [] then 0 else int n),
      height = int (length ls), tiles = concat (map row_values ls)\<rparr>"
  have init: "Map_init text =
      (if \<forall>line \<in> set ls. length (row_words line) = n then Inr M else Inl RuntimeError)"
    unfolding M_def n_def ls_def using assms(1) by (rule Map_init_cases)
  have u: "\<forall>line \<in> set ls. length (row_words line) = n"
  proof (rule ccontr)
    assume "\<not> ?thesis"
    then have "Map_init text = Inl RuntimeError" unfolding init by (rule if_not_P)
    with assms(2) show False by contradiction
  qed
  then have m: "Map_init text = Inr M" unfolding init by (rule if_P)
  have counts: "row_counts text = map (\<lambda>line. int (length (row_words line))) ls"
    by (simp add: row_counts_def ls_def)
  have h: "height M = int (length (row_counts text))" by (simp add: M_def counts)
  have w: "\<forall>c \<in> set (row_counts text). c = width M"
  proof
    fix c assume "c \<in> set (row_counts text)"
    then obtain line where l: "line \<in> set ls" and c: "c = int (length (row_words line))"
      unfolding counts by auto
    from l have "ls \<noteq> []" by auto
    then have "width M = int n" by (simp add: M_def)
    with u l c show "c = width M" by simp
  qed
  have e: "row_counts text = [] \<longrightarrow> width M = 0" by (simp add: counts M_def)
  have "\<forall>l \<in> set ls. length (row_values l) = n"
    using u by (simp add: row_values_def)
  then have len: "length (concat (map row_values ls)) = n * length ls"
    by (rule concat_uniform)
  have n: "int (length (tiles M)) = width M * height M"
  proof (cases "ls = []")
    case True
    then show ?thesis by (simp add: M_def)
  next
    case False
    then show ?thesis using len by (simp add: M_def)
  qed
  have t: "tiles M = concat (map row_values (readlines text))" by (simp add: M_def ls_def)
  show ?thesis
    by (rule exI [of _ M]) (intro conjI m h w e n t)
qed

lemma Map_init_failure:
  assumes "all_words_parse text"
  shows "Map_init text = Inl RuntimeError \<longleftrightarrow>
           (\<exists>c \<in> set (row_counts text). c \<noteq> hd (row_counts text))"
proof -
  let ?P = "\<forall>line \<in> set (readlines text).
            length (row_words line) = length (row_words (hd (readlines text)))"
  have "(\<exists>c \<in> set (row_counts text). c \<noteq> hd (row_counts text)) \<longleftrightarrow> \<not> ?P"
    unfolding row_counts_def by (rule counts_uniform)
  moreover have "Map_init text = Inl RuntimeError \<longleftrightarrow> \<not> ?P"
  proof (cases ?P)
    case True
    then show ?thesis unfolding Map_init_cases [OF assms] by simp
  next
    case False
    then show ?thesis unfolding Map_init_cases [OF assms] by simp
  qed
  ultimately show ?thesis by (simp only:)
qed

text \<open>
  C8, as amended. For a file in which every non-empty piece between single spaces, on
  every line, reads as an integer for \<^verbatim>\<open>int\<close>, loading the map raises the format
  error (\<^verbatim>\<open>RuntimeError\<close>) iff some row's number of entries differs from the first
  row's, and otherwise succeeds with \<open>height\<close> the number of rows, \<open>width\<close> the
  common number of entries (0 for no row), the entries in row-major order as \<open>tiles\<close>,
  and \<open>width * height\<close> tiles; nothing else happens for such files.
\<close>

theorem Map_init_outcomes:
  assumes "all_words_parse text"
  shows "(Map_init text = Inl RuntimeError \<longleftrightarrow>
            (\<exists>c \<in> set (row_counts text). c \<noteq> hd (row_counts text))) \<and>
         (Map_init text \<noteq> Inl RuntimeError \<longrightarrow>
            (\<exists>m. Map_init text = Inr m \<and>
                 height m = int (length (row_counts text)) \<and>
                 (\<forall>c \<in> set (row_counts text). c = width m) \<and>
                 (row_counts text = [] \<longrightarrow> width m = 0) \<and>
                 int (length (tiles m)) = width m * height m \<and>
                 tiles m = concat (map row_values (readlines text))))"
proof (intro conjI impI)
  show "Map_init text = Inl RuntimeError \<longleftrightarrow>
            (\<exists>c \<in> set (row_counts text). c \<noteq> hd (row_counts text))"
    using assms by (rule Map_init_failure)
next
  assume "Map_init text \<noteq> Inl RuntimeError"
  with assms show "\<exists>m. Map_init text = Inr m \<and>
                 height m = int (length (row_counts text)) \<and>
                 (\<forall>c \<in> set (row_counts text). c = width m) \<and>
                 (row_counts text = [] \<longrightarrow> width m = 0) \<and>
                 int (length (tiles m)) = width m * height m \<and>
                 tiles m = concat (map row_values (readlines text))"
    by (rule Map_init_success)
qed

lemma three_rows_parse: "all_words_parse ''0 0 0\<newline>0 1 0\<newline>0 0 5\<newline>''"
  by code_simp

lemma three_rows_load:
  "Map_init ''0 0 0\<newline>0 1 0\<newline>0 0 5\<newline>'' =
     Inr \<lparr>width = 3, height = 3, tiles = [0, 0, 0, 0, 1, 0, 0, 0, 5]\<rparr>"
  by code_simp

lemma ragged_rows_parse: "all_words_parse ''0 0 0\<newline>0 0''"
  by code_simp

lemma ragged_rows_counts: "row_counts ''0 0 0\<newline>0 0'' = [3, 2]"
  by code_simp

lemma ragged_rows_differ:
  "\<exists>c \<in> set (row_counts ''0 0 0\<newline>0 0''). c \<noteq> hd (row_counts ''0 0 0\<newline>0 0'')"
  unfolding ragged_rows_counts by simp

theorem Map_init_outcomes_witness:
  "all_words_parse ''0 0 0\<newline>0 1 0\<newline>0 0 5\<newline>'' \<and>
   Map_init ''0 0 0\<newline>0 1 0\<newline>0 0 5\<newline>'' =
     Inr \<lparr>width = 3, height = 3, tiles = [0, 0, 0, 0, 1, 0, 0, 0, 5]\<rparr> \<and>
   all_words_parse ''0 0 0\<newline>0 0'' \<and>
   row_counts ''0 0 0\<newline>0 0'' = [3, 2] \<and>
   Map_init ''0 0 0\<newline>0 0'' = Inl RuntimeError"
proof -
  have "Map_init ''0 0 0\<newline>0 0'' = Inl RuntimeError"
    using Map_init_outcomes [OF ragged_rows_parse, THEN conjunct1] ragged_rows_differ
    by (rule iffD2)
  with three_rows_parse three_rows_load ragged_rows_parse ragged_rows_counts
  show ?thesis by (intro conjI)
qed

text \<open>
  C8 as stated fails: the rows of a file of whitespace-separated integers can agree and
  the load still ends otherwise than by success or the format error. A space before the
  end of a line, or an empty line, leaves a piece that holds only the newline, and
  \<^verbatim>\<open>int\<close> raises \<^verbatim>\<open>ValueError\<close> on it.
\<close>

theorem Map_init_outcomes_counterexample:
  "Map_init ''0 0 \<newline>'' = Inl ValueError \<and> Map_init ''0 0\<newline>\<newline>'' = Inl ValueError"
  by code_simp

end
